theory Spec2Isabelle
  imports Main "HOL-Library.Word" "HOL-Library.Signed_Division"
begin

unbundle bit_operations_syntax

section \<open>The chain view\<close>

text \<open>
  A \<open>CBlockIndex\<close> carries its height, its version and the pointer to its
  predecessor. A pointer \<open>const CBlockIndex*\<close> is a \<open>CBlockIndex option\<close>, with
  \<open>None\<close> for \<open>nullptr\<close>. The C++ \<open>int\<close> heights and counters are modelled as
  unbounded integers: they overflow only on a chain of \<open>2^31\<close> blocks. The two
  subtractions of line 138, which a threshold far outside \<open>[0, period]\<close> takes out of
  the range of \<open>int\<close>, are 32-bit (\<open>int32_sub\<close> below). The version is a 32-bit word.
\<close>

datatype CBlockIndex =
  CBlockIndex (nHeight: int) (nVersion: "32 word") (pprev: "CBlockIndex option")

text \<open>
  Modelled from the spec: \<open>CBlockIndex::GetAncestor\<close> (chain.cpp is not among the
  sources). The spec's \<open>ancestor(target_height) \<rightarrow> block | none\<close>: the walk along
  \<open>predecessor\<close> to the block of the target height, \<open>none\<close> when the target is
  negative, above the block's own height, or the walk passes genesis.
\<close>

fun GetAncestor :: "CBlockIndex \<Rightarrow> int \<Rightarrow> CBlockIndex option" where
  "GetAncestor (CBlockIndex h v p) height =
     (if height > h \<or> height < 0 then None
      else if h = height then Some (CBlockIndex h v p)
      else (case p of None \<Rightarrow> None | Some q \<Rightarrow> GetAncestor q height))"

text \<open>
  The chains that \<open>Blocks::mine_block\<close> of the fuzz harness builds: the genesis
  block has height 0 and no predecessor, every other block is one higher than its
  predecessor.
\<close>

fun wf_chain :: "CBlockIndex \<Rightarrow> bool" where
  "wf_chain (CBlockIndex h v p) =
     (case p of None \<Rightarrow> h = 0 | Some q \<Rightarrow> h = nHeight q + 1 \<and> wf_chain q)"

definition wf_ptr :: "CBlockIndex option \<Rightarrow> bool" where
  "wf_ptr p = (case p of None \<Rightarrow> True | Some b \<Rightarrow> wf_chain b)"

text \<open>The blocks from a block back to genesis, the block itself first.\<close>

fun chain :: "CBlockIndex \<Rightarrow> CBlockIndex list" where
  "chain (CBlockIndex h v p) =
     CBlockIndex h v p # (case p of None \<Rightarrow> [] | Some q \<Rightarrow> chain q)"

text \<open>
  \<open>prev_next_height\<close> of the fuzz harness: the height of the block that follows
  a previous-block pointer, 0 after \<open>nullptr\<close>.
\<close>

definition prev_next_height :: "CBlockIndex option \<Rightarrow> int" where
  "prev_next_height prev = (case prev of None \<Rightarrow> 0 | Some b \<Rightarrow> nHeight b + 1)"

section \<open>The condition checker\<close>

datatype ThresholdState = DEFINED | STARTED | MUST_SIGNAL | LOCKED_IN | ACTIVE | FAILED

text \<open>
  \<open>AbstractThresholdConditionChecker\<close>: the virtual accessors, each already applied
  to the \<open>Consensus::Params\<close> of the call, and \<open>Condition\<close> on a block that the
  pointer has been checked to reach.
\<close>

record Checker =
  Period :: int
  Threshold :: int
  StartHeight :: int
  TimeoutHeight :: int
  MinActivationHeight :: int
  LockinOnTimeout :: bool
  Condition :: "CBlockIndex \<Rightarrow> bool"

text \<open>
  The constants \<open>Consensus::BIP9Deployment::ALWAYS_ACTIVE\<close> and \<open>NEVER_ACTIVE\<close> are
  declared in consensus/params.h, which is not among the sources; the engine takes
  them as a parameter.
\<close>

record Sentinels =
  ALWAYS_ACTIVE :: int
  NEVER_ACTIVE :: int

text \<open>
  Modelled from the spec: \<open>VERSIONBITS_TOP_MASK\<close>, \<open>VERSIONBITS_TOP_BITS\<close> and
  \<open>VERSIONBITS_NUM_BITS\<close> of versionbits.h (not among the sources), with the values
  \<open>0xE0000000\<close>, \<open>0x20000000\<close> and 29 signal bits.
\<close>

definition VERSIONBITS_TOP_MASK :: "32 word" where
  "VERSIONBITS_TOP_MASK = 0xE0000000"

definition VERSIONBITS_TOP_BITS :: "32 word" where
  "VERSIONBITS_TOP_BITS = 0x20000000"

definition VERSIONBITS_NUM_BITS :: int where
  "VERSIONBITS_NUM_BITS = 29"

text \<open>\<open>TestConditionChecker::Condition(int32_t version)\<close>.\<close>

definition Condition_version :: "int \<Rightarrow> 32 word \<Rightarrow> bool" where
  "Condition_version m_bit version =
     (let mask = push_bit (nat m_bit) (1 :: 32 word)
      in (version AND VERSIONBITS_TOP_MASK) = VERSIONBITS_TOP_BITS \<and> (version AND mask) \<noteq> 0)"

text \<open>
  The constructor of \<open>TestConditionChecker\<close> and the three assertions it makes
  on its arguments.
\<close>

definition TestConditionChecker ::
  "int \<Rightarrow> int \<Rightarrow> int \<Rightarrow> int \<Rightarrow> int \<Rightarrow> int \<Rightarrow> bool \<Rightarrow> Checker" where
  "TestConditionChecker m_begin m_end m_min_activation m_period m_threshold m_bit m_lockinontimeout =
     \<lparr> Period = m_period, Threshold = m_threshold, StartHeight = m_begin,
       TimeoutHeight = m_end, MinActivationHeight = m_min_activation,
       LockinOnTimeout = m_lockinontimeout,
       Condition = (\<lambda>pindex. Condition_version m_bit (nVersion pindex)) \<rparr>"

definition TestConditionChecker_asserts :: "int \<Rightarrow> int \<Rightarrow> int \<Rightarrow> bool" where
  "TestConditionChecker_asserts m_period m_threshold m_bit =
     (m_period > 0 \<and> (0 \<le> m_threshold \<and> m_threshold \<le> m_period)
      \<and> (0 \<le> m_bit \<and> m_bit < 32 \<and> m_bit < VERSIONBITS_NUM_BITS))"

text \<open>
  \<open>Blocks\<close> of the fuzz harness. \<open>m_blocks\<close> is held newest first, so that
  \<open>tip\<close> is its head; \<open>mine_block\<close> appends a block on the tip whose height is
  the number of blocks mined before it.
\<close>

definition tip :: "CBlockIndex list \<Rightarrow> CBlockIndex option" where
  "tip m_blocks = (case m_blocks of [] \<Rightarrow> None | b # _ \<Rightarrow> Some b)"

definition mine_block :: "32 word \<Rightarrow> 32 word \<Rightarrow> bool \<Rightarrow> CBlockIndex list \<Rightarrow> CBlockIndex list" where
  "mine_block m_signal m_no_signal signal m_blocks =
     CBlockIndex (int (length m_blocks)) (if signal then m_signal else m_no_signal) (tip m_blocks)
       # m_blocks"

section \<open>The threshold engine\<close>

datatype error = NullDereference | DivisionByZero | AssertionFailed

text \<open>
  \<open>ThresholdConditionCache\<close>, a \<open>std::map\<close> from block pointers to states. A pointer
  is identified with the block it points to, which holds the whole chain below it.
\<close>

type_synonym ThresholdConditionCache = "CBlockIndex option \<Rightarrow> ThresholdState option"

text \<open>
  The expression \<open>p->GetAncestor(p->nHeight - ((p->nHeight + 1) % nPeriod))\<close> of
  lines 29, 125 and 165. The remainder of C++ truncates towards zero (\<open>smod\<close>) and
  a zero divisor is undefined behaviour, an error here.
\<close>

definition period_boundary :: "int \<Rightarrow> CBlockIndex \<Rightarrow> error + CBlockIndex option" where
  "period_boundary nPeriod p =
     (if nPeriod = 0 then Inl DivisionByZero
      else Inr (GetAncestor p (nHeight p - ((nHeight p + 1) smod nPeriod))))"

text \<open>
  The walk back of lines 34 to 49. \<open>vToCompute\<close> is held with its back first. With
  \<open>nPeriod = 0\<close> the ancestor is the block itself and the loop does not end:
  the result \<open>None\<close>.
\<close>

partial_function (option) walk_back ::
  "Checker \<Rightarrow> ThresholdConditionCache \<Rightarrow> CBlockIndex option \<Rightarrow> CBlockIndex list
     \<Rightarrow> (ThresholdConditionCache \<times> CBlockIndex option \<times> CBlockIndex list) option" where
  "walk_back chk cache pindexPrev vToCompute =
     (if cache pindexPrev \<noteq> None then Some (cache, pindexPrev, vToCompute)
      else (case pindexPrev of
              None \<Rightarrow> Some (cache(None \<mapsto> DEFINED), None, vToCompute)
            | Some b \<Rightarrow>
                if nHeight b + 1 < StartHeight chk
                then Some (cache(Some b \<mapsto> DEFINED), Some b, vToCompute)
                else walk_back chk cache (GetAncestor b (nHeight b - Period chk)) (b # vToCompute)))"

declare walk_back.simps [code]

text \<open>The counting loop of lines 73 to 80: \<open>nPeriod\<close> rounds along \<open>pprev\<close>.\<close>

fun count_period :: "Checker \<Rightarrow> nat \<Rightarrow> CBlockIndex option \<Rightarrow> int \<Rightarrow> error + int" where
  "count_period chk 0 pindexCount cnt = Inr cnt"
| "count_period chk (Suc n) pindexCount cnt =
     (case pindexCount of
        None \<Rightarrow> Inl NullDereference
      | Some b \<Rightarrow> count_period chk n (pprev b) (if Condition chk b then cnt + 1 else cnt))"

text \<open>The body of the forward loop, lines 57 to 107: \<open>stateNext\<close>.\<close>

definition next_state :: "Checker \<Rightarrow> ThresholdState \<Rightarrow> CBlockIndex \<Rightarrow> error + ThresholdState" where
  "next_state chk state pindexPrev =
     (let height = nHeight pindexPrev + 1 in
      case state of
        DEFINED \<Rightarrow> Inr (if height \<ge> StartHeight chk then STARTED else DEFINED)
      | STARTED \<Rightarrow>
          (case count_period chk (nat (Period chk)) (Some pindexPrev) 0 of
             Inl e \<Rightarrow> Inl e
           | Inr cnt \<Rightarrow>
               Inr (if cnt \<ge> Threshold chk then LOCKED_IN
                    else if LockinOnTimeout chk \<and> height + Period chk \<ge> TimeoutHeight chk
                    then MUST_SIGNAL
                    else if height \<ge> TimeoutHeight chk then FAILED
                    else STARTED))
      | MUST_SIGNAL \<Rightarrow> Inr LOCKED_IN
      | LOCKED_IN \<Rightarrow> Inr (if height \<ge> MinActivationHeight chk then ACTIVE else LOCKED_IN)
      | FAILED \<Rightarrow> Inr FAILED
      | ACTIVE \<Rightarrow> Inr ACTIVE)"

text \<open>The forward loop of lines 56 to 109.\<close>

fun forward_pass ::
  "Checker \<Rightarrow> ThresholdState \<Rightarrow> ThresholdConditionCache \<Rightarrow> CBlockIndex list
     \<Rightarrow> error + ThresholdState \<times> ThresholdConditionCache" where
  "forward_pass chk state cache [] = Inr (state, cache)"
| "forward_pass chk state cache (pindexPrev # vToCompute) =
     (case next_state chk state pindexPrev of
        Inl e \<Rightarrow> Inl e
      | Inr stateNext \<Rightarrow>
          forward_pass chk stateNext (cache(Some pindexPrev \<mapsto> stateNext)) vToCompute)"

text \<open>
  \<open>GetStateFor\<close>. The result is \<open>None\<close> when the call does not return,
  \<open>Some (Inl e)\<close> when it fails, \<open>Some (Inr (state, cache))\<close> with the cache as the
  call leaves it otherwise.
\<close>

definition GetStateFor ::
  "Sentinels \<Rightarrow> Checker \<Rightarrow> CBlockIndex option \<Rightarrow> ThresholdConditionCache
     \<Rightarrow> (error + ThresholdState \<times> ThresholdConditionCache) option" where
  "GetStateFor k chk pindexPrev cache =
     (if StartHeight chk = NEVER_ACTIVE k \<and> TimeoutHeight chk = NEVER_ACTIVE k
      then Some (Inr (DEFINED, cache))
      else if StartHeight chk = ALWAYS_ACTIVE k then Some (Inr (ACTIVE, cache))
      else
        (case (case pindexPrev of None \<Rightarrow> Inr None
                                | Some b \<Rightarrow> period_boundary (Period chk) b) of
           Inl e \<Rightarrow> Some (Inl e)
         | Inr pindexAligned \<Rightarrow>
             (case walk_back chk cache pindexAligned [] of
                None \<Rightarrow> None
              | Some (cache1, pindexKnown, vToCompute) \<Rightarrow>
                  (case cache1 pindexKnown of
                     None \<Rightarrow> Some (Inl AssertionFailed)
                   | Some state \<Rightarrow> Some (forward_pass chk state cache1 vToCompute)))))"

section \<open>Statistics\<close>

record BIP9Stats =
  period :: int
  threshold :: int
  elapsed :: int
  count :: int
  possible :: bool

text \<open>
  The difference of two \<open>int\<close> values as a 32-bit machine computes it: where the
  mathematical difference leaves the range from \<open>-2^31\<close> to \<open>2^31 - 1\<close> (undefined
  behaviour in C++), the two's complement wrap-around is written out.
\<close>

definition int32_sub :: "int \<Rightarrow> int \<Rightarrow> int" where
  "int32_sub a b = (a - b + 2147483648) mod 4294967296 - 2147483648"

text \<open>The counting loop of lines 131 to 135.\<close>

fun count_to_boundary :: "Checker \<Rightarrow> int \<Rightarrow> CBlockIndex option \<Rightarrow> int \<Rightarrow> error + int" where
  "count_to_boundary chk endHeight None cnt = Inl NullDereference"
| "count_to_boundary chk endHeight (Some (CBlockIndex h v p)) cnt =
     (if endHeight \<noteq> h
      then count_to_boundary chk endHeight p
             (if Condition chk (CBlockIndex h v p) then cnt + 1 else cnt)
      else Inr cnt)"

definition GetStateStatisticsFor :: "Checker \<Rightarrow> CBlockIndex option \<Rightarrow> error + BIP9Stats" where
  "GetStateStatisticsFor chk pindex =
     (case pindex of
        None \<Rightarrow> Inr \<lparr> period = Period chk, threshold = Threshold chk,
                     elapsed = 0, count = 0, possible = False \<rparr>
      | Some b \<Rightarrow>
          (case period_boundary (Period chk) b of
             Inl e \<Rightarrow> Inl e
           | Inr None \<Rightarrow> Inl NullDereference
           | Inr (Some pindexEndOfPrevPeriod) \<Rightarrow>
               (case count_to_boundary chk (nHeight pindexEndOfPrevPeriod) (Some b) 0 of
                  Inl e \<Rightarrow> Inl e
                | Inr cnt \<Rightarrow>
                    Inr \<lparr> period = Period chk, threshold = Threshold chk,
                          elapsed = nHeight b - nHeight pindexEndOfPrevPeriod,
                          count = cnt,
                          possible = (int32_sub (Period chk) (Threshold chk)
                                        \<ge> int32_sub (nHeight b - nHeight pindexEndOfPrevPeriod)
                                             cnt) \<rparr>)))"

section \<open>Since-height\<close>

text \<open>The loop of lines 169 to 172; it returns the last \<open>pindexPrev\<close>.\<close>

partial_function (option) since_loop ::
  "Sentinels \<Rightarrow> Checker \<Rightarrow> ThresholdState \<Rightarrow> CBlockIndex \<Rightarrow> CBlockIndex option
     \<Rightarrow> ThresholdConditionCache \<Rightarrow> (error + CBlockIndex \<times> ThresholdConditionCache) option" where
  "since_loop k chk initialState pindexPrev previousPeriodParent cache =
     (case previousPeriodParent of
        None \<Rightarrow> Some (Inr (pindexPrev, cache))
      | Some b \<Rightarrow>
          (case GetStateFor k chk (Some b) cache of
             None \<Rightarrow> None
           | Some (Inl e) \<Rightarrow> Some (Inl e)
           | Some (Inr (state, cache1)) \<Rightarrow>
               if state = initialState
               then since_loop k chk initialState b (GetAncestor b (nHeight b - Period chk)) cache1
               else Some (Inr (pindexPrev, cache1))))"

declare since_loop.simps [code]

definition GetStateSinceHeightFor ::
  "Sentinels \<Rightarrow> Checker \<Rightarrow> CBlockIndex option \<Rightarrow> ThresholdConditionCache
     \<Rightarrow> (error + int \<times> ThresholdConditionCache) option" where
  "GetStateSinceHeightFor k chk pindexPrev cache =
     (if StartHeight chk = ALWAYS_ACTIVE k then Some (Inr (0, cache))
      else
        (case GetStateFor k chk pindexPrev cache of
           None \<Rightarrow> None
         | Some (Inl e) \<Rightarrow> Some (Inl e)
         | Some (Inr (initialState, cache1)) \<Rightarrow>
             if initialState = DEFINED then Some (Inr (0, cache1))
             else
               (case pindexPrev of
                  None \<Rightarrow> Some (Inl NullDereference)
                | Some b \<Rightarrow>
                    (case period_boundary (Period chk) b of
                       Inl e \<Rightarrow> Some (Inl e)
                     | Inr None \<Rightarrow> Some (Inl NullDereference)
                     | Inr (Some pindexAligned) \<Rightarrow>
                         (case since_loop k chk initialState pindexAligned
                                 (GetAncestor pindexAligned (nHeight pindexAligned - Period chk))
                                 cache1 of
                            None \<Rightarrow> None
                          | Some (Inl e) \<Rightarrow> Some (Inl e)
                          | Some (Inr (pindexFirst, cache2)) \<Rightarrow>
                              Some (Inr (nHeight pindexFirst + 1, cache2)))))))"


text \<open>
  What a caller sees of a call that threads the cache: the value it returns, if it
  returns one.
\<close>

definition returned :: "(error + 'a \<times> ThresholdConditionCache) option \<Rightarrow> 'a option" where
  "returned r = (case r of Some (Inr (x, cache)) \<Rightarrow> Some x | _ \<Rightarrow> None)"

section \<open>Notions for the proofs\<close>

text \<open>
  The period-boundary previous-block of a pointer (line 29, on a chain with heights from
  0 and a positive period, where \<open>%\<close> is \<open>mod\<close>), and the boundary one period before
  (line 48).
\<close>

definition boundary_of :: "Checker \<Rightarrow> CBlockIndex option \<Rightarrow> CBlockIndex option" where
  "boundary_of chk p =
     (case p of
        None \<Rightarrow> None
      | Some b \<Rightarrow> GetAncestor b (nHeight b - (nHeight b + 1) mod Period chk))"

definition period_before :: "Checker \<Rightarrow> CBlockIndex option \<Rightarrow> CBlockIndex option" where
  "period_before chk p =
     (case p of None \<Rightarrow> None | Some b \<Rightarrow> GetAncestor b (nHeight b - Period chk))"

definition is_boundary :: "Checker \<Rightarrow> CBlockIndex option \<Rightarrow> bool" where
  "is_boundary chk p =
     (case p of None \<Rightarrow> True | Some b \<Rightarrow> wf_chain b \<and> (nHeight b + 1) mod Period chk = 0)"

definition fast_path :: "Sentinels \<Rightarrow> Checker \<Rightarrow> bool" where
  "fast_path k chk =
     ((StartHeight chk = NEVER_ACTIVE k \<and> TimeoutHeight chk = NEVER_ACTIVE k)
      \<or> StartHeight chk = ALWAYS_ACTIVE k)"

text \<open>
  The state of a boundary pointer as the two loops compute it when nothing is cached:
  the walk back down to \<open>nullptr\<close> or below the start height, then \<open>next_state\<close>
  on the way up. It is the invariant of the cache. (For a period that is not positive
  the recursion would not end, and the value is of no use.)
\<close>

function state_at :: "Checker \<Rightarrow> CBlockIndex option \<Rightarrow> error + ThresholdState" where
  "state_at chk None = Inr DEFINED"
| "state_at chk (Some b) =
     (if nHeight b + 1 < StartHeight chk \<or> Period chk \<le> 0 then Inr DEFINED
      else (case state_at chk (GetAncestor b (nHeight b - Period chk)) of
              Inl e \<Rightarrow> Inl e
            | Inr state \<Rightarrow> next_state chk state b))"
  by pat_completeness auto
termination
proof (relation "measure (\<lambda>(chk, p). case p of None \<Rightarrow> 0 | Some b \<Rightarrow> size b)")
  show "wf (measure (\<lambda>(chk, p). case p of None \<Rightarrow> 0 | Some b \<Rightarrow> size b))" by simp
next
  fix chk :: Checker and b :: CBlockIndex
  assume "\<not> (nHeight b + 1 < StartHeight chk \<or> Period chk \<le> 0)"
  then have below: "nHeight b - Period chk < nHeight b" by simp
  have smaller: "size a < size c" if "GetAncestor c h = Some a" "h < nHeight c" for a c h
    using that
  proof (induction c h rule: GetAncestor.induct)
    case (1 h v p height)
    show ?case
    proof (cases p)
      case None
      with 1 show ?thesis by (auto split: if_splits)
    next
      case (Some q)
      with 1 have ga: "GetAncestor q height = Some a" by (auto split: if_splits)
      show ?thesis
      proof (cases "height < nHeight q")
        case True
        with 1 Some ga have "size a < size q" by (auto split: if_splits)
        with Some show ?thesis by simp
      next
        case False
        with ga have "a = q" by (cases q) (auto split: if_splits option.splits)
        with Some show ?thesis by simp
      qed
    qed
  qed
  show "((chk, GetAncestor b (nHeight b - Period chk)), chk, Some b)
          \<in> measure (\<lambda>(chk, p). case p of None \<Rightarrow> 0 | Some b \<Rightarrow> size b)"
  proof (cases "GetAncestor b (nHeight b - Period chk)")
    case None
    then show ?thesis by (cases b) simp
  next
    case (Some a)
    from smaller [OF Some below] Some show ?thesis by simp
  qed
qed

definition cache_ok :: "Checker \<Rightarrow> ThresholdConditionCache \<Rightarrow> bool" where
  "cache_ok chk cache = (\<forall>p state. cache p = Some state \<longrightarrow> state_at chk p = Inr state)"

text \<open>
  The caches a deployment can hold: empty at first (and after \<open>Clear\<close>), then whatever
  a call of \<open>GetStateFor\<close> that returned has left.
\<close>

inductive cache_reachable :: "Sentinels \<Rightarrow> Checker \<Rightarrow> ThresholdConditionCache \<Rightarrow> bool"
  for k :: Sentinels and chk :: Checker where
  empty: "cache_reachable k chk Map.empty"
| step: "cache_reachable k chk cache \<Longrightarrow>
         GetStateFor k chk pindexPrev cache = Some (Inr (state, cache')) \<Longrightarrow>
         cache_reachable k chk cache'"

text \<open>
  What the forward pass makes of the blocks \<open>v\<close> that the walk back from \<open>p\<close> has
  pushed, started in the state \<open>s\<close> of the pointer where the walk stopped.
\<close>

definition replays :: "Checker \<Rightarrow> CBlockIndex list \<Rightarrow> ThresholdState \<Rightarrow> CBlockIndex option \<Rightarrow> bool" where
  "replays chk v s p =
     (\<forall>c rest. cache_ok chk c \<longrightarrow>
        (case state_at chk p of
           Inl e \<Rightarrow> forward_pass chk s c (v @ rest) = Inl e
         | Inr sp \<Rightarrow>
             (\<exists>c'. cache_ok chk c' \<and> forward_pass chk s c (v @ rest) = forward_pass chk sp c' rest)))"

text \<open>
  The boundary block that the loop of \<open>GetStateSinceHeightFor\<close> ends on: the earliest
  of the run of boundaries in the state \<open>s\<close> that ends at \<open>b\<close>.
\<close>

function since_block :: "Checker \<Rightarrow> ThresholdState \<Rightarrow> CBlockIndex \<Rightarrow> CBlockIndex" where
  "since_block chk s b =
     (if Period chk \<le> 0 then b
      else (case GetAncestor b (nHeight b - Period chk) of
              None \<Rightarrow> b
            | Some a \<Rightarrow> if state_at chk (Some a) = Inr s then since_block chk s a else b))"
  by pat_completeness auto
termination
proof (relation "measure (\<lambda>(chk, s, b). size b)")
  show "wf (measure (\<lambda>(chk, s, b). size b))" by simp
next
  fix chk :: Checker and s :: ThresholdState and b a :: CBlockIndex
  assume "\<not> Period chk \<le> 0" and ga: "GetAncestor b (nHeight b - Period chk) = Some a"
  then have below: "nHeight b - Period chk < nHeight b" by simp
  have smaller: "size a < size c" if "GetAncestor c h = Some a" "h < nHeight c" for a c h
    using that
  proof (induction c h rule: GetAncestor.induct)
    case (1 h v p height)
    show ?case
    proof (cases p)
      case None
      with 1 show ?thesis by (auto split: if_splits)
    next
      case (Some q)
      with 1 have anc: "GetAncestor q height = Some a" by (auto split: if_splits)
      show ?thesis
      proof (cases "height < nHeight q")
        case True
        with 1 Some anc have "size a < size q" by (auto split: if_splits)
        with Some show ?thesis by simp
      next
        case False
        with anc have "a = q" by (cases q) (auto split: if_splits option.splits)
        with Some show ?thesis by simp
      qed
    qed
  qed
  from smaller [OF ga below]
  show "((chk, s, a), chk, s, b) \<in> measure (\<lambda>(chk, s, b). size b)" by simp
qed

declare since_block.simps [simp del]

section \<open>Inputs for the closed instances\<close>

text \<open>
  Sentinel values below every height, and the two versions of the spec's scenarios.
  \<open>mined_tip\<close> is the tip of \<open>Blocks\<close> after it has mined one block for each signal
  of a list that names the newest block first (lemma \<open>tip_mined\<close> below), and
  \<open>mined_block s older\<close> is the block mined with signal \<open>s\<close> on the blocks \<open>older\<close>.
\<close>

definition sentinels0 :: Sentinels where
  "sentinels0 = \<lparr> ALWAYS_ACTIVE = - 1, NEVER_ACTIVE = - 2 \<rparr>"

definition ver_signal :: "32 word" where
  "ver_signal = 0x20000001"

definition ver_nosignal :: "32 word" where
  "ver_nosignal = 0x20000000"

primrec mined_tip :: "bool list \<Rightarrow> CBlockIndex option" where
  "mined_tip [] = None"
| "mined_tip (s # older) =
     Some (CBlockIndex (int (length older)) (if s then ver_signal else ver_nosignal)
             (mined_tip older))"

definition mined_block :: "bool \<Rightarrow> bool list \<Rightarrow> CBlockIndex" where
  "mined_block s older =
     CBlockIndex (int (length older)) (if s then ver_signal else ver_nosignal) (mined_tip older)"

text \<open>
  The block of height \<open>n\<close> of a chain on which every block signals, and of one on which
  none does.
\<close>

definition signalling_block :: "nat \<Rightarrow> CBlockIndex" where
  "signalling_block n = mined_block True (replicate n True)"

definition quiet_block :: "nat \<Rightarrow> CBlockIndex" where
  "quiet_block n = mined_block False (replicate n False)"

text \<open>
  Period 2, threshold 1, bit 0, start 0, timeout 10 and minimum activation height 5;
  the same with timeout 4, minimum activation height 0 and lock-in on timeout; an always
  active and a never active deployment.
\<close>

definition checker_p2 :: Checker where
  "checker_p2 = TestConditionChecker 0 10 5 2 1 0 False"

definition checker_lot :: Checker where
  "checker_lot = TestConditionChecker 0 4 0 2 1 0 True"

definition checker_always :: Checker where
  "checker_always = TestConditionChecker (- 1) 10 0 2 1 0 False"

definition checker_never :: Checker where
  "checker_never = TestConditionChecker (- 2) (- 2) 0 2 1 0 False"

text \<open>
  Period 2 with a threshold of \<open>INT_MIN\<close>, which the constructor of
  \<open>TestConditionChecker\<close> refuses and where \<open>period - threshold\<close> leaves the range of
  \<open>int\<close>.
\<close>

definition checker_int_min :: Checker where
  "checker_int_min = TestConditionChecker 0 10 5 2 (- 2147483648) 0 False"

text \<open>
  Scenario S1 of the spec: period 32, threshold 28, bit 0, start 0, timeout 10000; 32
  blocks that do not signal, then 28 that do and 4 that do not, then 32 more. The
  blocks of heights 31, 63 and 95.
\<close>

definition checker_S1 :: Checker where
  "checker_S1 = TestConditionChecker 0 10000 0 32 28 0 False"

definition S1_block31 :: CBlockIndex where
  "S1_block31 = mined_block False (replicate 31 False)"

definition S1_block63 :: CBlockIndex where
  "S1_block63 = mined_block False (replicate 3 False @ replicate 28 True @ replicate 32 False)"

definition S1_block95 :: CBlockIndex where
  "S1_block95 =
     mined_block False
       (replicate 31 False @ replicate 4 False @ replicate 28 True @ replicate 32 False)"

section \<open>The chain and the cache\<close>

lemma mined_tip_wf:
  "wf_ptr (mined_tip signals) \<and> prev_next_height (mined_tip signals) = int (length signals)"
  by (induction signals) (auto simp: wf_ptr_def prev_next_height_def split: option.splits)

lemma mined_block_wf: "wf_chain (mined_block s older)"
  using mined_tip_wf [of "s # older"] by (simp add: wf_ptr_def mined_block_def)

lemma checkers_pass_asserts:
  "TestConditionChecker_asserts 2 1 0" "TestConditionChecker_asserts 32 28 0"
  by (simp_all add: TestConditionChecker_asserts_def VERSIONBITS_NUM_BITS_def)

lemma tip_mined:
  "tip (foldr (mine_block ver_signal ver_nosignal) signals []) = mined_tip signals
   \<and> length (foldr (mine_block ver_signal ver_nosignal) signals []) = length signals"
  by (induction signals) (simp_all add: tip_def mine_block_def)


lemma GetAncestor_height: "GetAncestor b h = Some a \<Longrightarrow> nHeight a = h"
  by (induction b h rule: GetAncestor.induct) (auto split: if_splits option.splits)

lemma wf_chain_nonneg: "wf_chain b \<Longrightarrow> 0 \<le> nHeight b"
  by (induction b rule: wf_chain.induct) (auto split: option.splits)

lemma GetAncestor_wf: "wf_chain b \<Longrightarrow> GetAncestor b h = Some a \<Longrightarrow> wf_chain a"
  by (induction b h rule: GetAncestor.induct) (auto split: if_splits option.splits)

lemma GetAncestor_self: "0 \<le> nHeight b \<Longrightarrow> GetAncestor b (nHeight b) = Some b"
  by (cases b) simp

lemma GetAncestor_negative: "h < 0 \<Longrightarrow> GetAncestor b h = None"
  by (cases b) simp

lemma length_chain: "wf_chain b \<Longrightarrow> int (length (chain b)) = nHeight b + 1"
  by (induction b rule: chain.induct) (auto split: option.splits)

lemma chain_unfold: "chain b = b # (case pprev b of None \<Rightarrow> [] | Some q \<Rightarrow> chain q)"
  by (cases b) simp

lemma count_period_result:
  "count_period chk n (Some b) c = Inr r \<Longrightarrow>
     r = c + int (length (filter (Condition chk) (take n (chain b))))"
proof (induction n arbitrary: b c)
  case 0
  then show ?case by simp
next
  case (Suc n)
  show ?case
  proof (cases "pprev b")
    case None
    with Suc.prems have "n = 0" by (cases n) auto
    with Suc.prems None show ?thesis by (subst chain_unfold) auto
  next
    case (Some q)
    with Suc.prems have "count_period chk n (Some q) (if Condition chk b then c + 1 else c) = Inr r"
      by simp
    from Suc.IH [OF this] Some show ?thesis by (subst chain_unfold) auto
  qed
qed

lemma count_period_returns:
  "n \<le> length (chain b) \<Longrightarrow> \<exists>r. count_period chk n (Some b) c = Inr r"
proof (induction n arbitrary: b c)
  case 0
  then show ?case by simp
next
  case (Suc n)
  show ?case
  proof (cases "pprev b")
    case None
    with Suc.prems have "n = 0" by (subst (asm) chain_unfold) simp
    with None show ?thesis by simp
  next
    case (Some q)
    with Suc.prems have "n \<le> length (chain q)" by (subst (asm) chain_unfold) simp
    from Suc.IH [OF this] Some show ?thesis by simp
  qed
qed



lemma cache_ok_empty: "cache_ok chk Map.empty"
  by (simp add: cache_ok_def)

lemma cache_okD: "cache_ok chk c \<Longrightarrow> c p = Some s \<Longrightarrow> state_at chk p = Inr s"
  by (simp add: cache_ok_def)

lemma cache_ok_upd: "cache_ok chk c \<Longrightarrow> state_at chk p = Inr s \<Longrightarrow> cache_ok chk (c(p \<mapsto> s))"
  by (simp add: cache_ok_def)

lemma replays_Nil: "state_at chk p = Inr s \<Longrightarrow> replays chk [] s p"
  by (auto simp: replays_def)

lemma replays_snoc:
  assumes r: "replays chk v s (GetAncestor b (nHeight b - Period chk))"
    and go: "\<not> (nHeight b + 1 < StartHeight chk \<or> Period chk \<le> 0)"
  shows "replays chk (v @ [b]) s (Some b)"
  unfolding replays_def
proof (intro allI impI)
  fix c rest
  assume ok: "cache_ok chk c"
  let ?par = "GetAncestor b (nHeight b - Period chk)"
  show "case state_at chk (Some b) of
          Inl e \<Rightarrow> forward_pass chk s c ((v @ [b]) @ rest) = Inl e
        | Inr sp \<Rightarrow> \<exists>c'. cache_ok chk c' \<and> forward_pass chk s c ((v @ [b]) @ rest) = forward_pass chk sp c' rest"
  proof (cases "state_at chk ?par")
    case (Inl e)
    with r [unfolded replays_def, rule_format, OF ok, of "b # rest"]
    have "forward_pass chk s c (v @ (b # rest)) = Inl e" by simp
    with Inl go show ?thesis by simp
  next
    case (Inr sp)
    with r [unfolded replays_def, rule_format, OF ok, of "b # rest"]
    obtain c' where c': "cache_ok chk c'"
      "forward_pass chk s c (v @ (b # rest)) = forward_pass chk sp c' (b # rest)"
      by auto
    show ?thesis
    proof (cases "next_state chk sp b")
      case (Inl e)
      with Inr go c' show ?thesis by simp
    next
      case inr: (Inr sn)
      with Inr go have sa: "state_at chk (Some b) = Inr sn" by simp
      from cache_ok_upd [OF c'(1) sa] have "cache_ok chk (c'(Some b \<mapsto> sn))" .
      with inr sa c' show ?thesis by auto
    qed
  qed
qed

lemma walk_back_correct:
  assumes "0 < Period chk" "cache_ok chk c"
  shows "\<exists>c1 p1 v s. walk_back chk c p vs = Some (c1, p1, v @ vs) \<and> c1 p1 = Some s
           \<and> cache_ok chk c1 \<and> replays chk v s p"
  using assms
proof (induction chk p arbitrary: vs rule: state_at.induct)
  case (1 chk)
  show ?case
  proof (cases "c None")
    case None
    have "cache_ok chk (c(None \<mapsto> DEFINED))" using 1 by (simp add: cache_ok_upd)
    with None show ?thesis
      by (subst walk_back.simps) (auto intro!: exI [where x = "[]"] replays_Nil)
  next
    case (Some s)
    from cache_okD [OF "1.prems"(2) Some] have "state_at chk None = Inr s" .
    with Some 1 show ?thesis
      by (subst walk_back.simps) (auto intro!: exI [where x = "[]"] replays_Nil)
  qed
next
  case (2 chk b)
  show ?case
  proof (cases "c (Some b)")
    case (Some s)
    from cache_okD [OF "2.prems"(2) Some] have "state_at chk (Some b) = Inr s" .
    with Some 2 show ?thesis
      by (subst walk_back.simps) (auto intro!: exI [where x = "[]"] replays_Nil)
  next
    case None
    show ?thesis
    proof (cases "nHeight b + 1 < StartHeight chk")
      case True
      then have sa: "state_at chk (Some b) = Inr DEFINED" by simp
      have "cache_ok chk (c(Some b \<mapsto> DEFINED))" using 2 sa by (simp add: cache_ok_upd)
      with None True sa show ?thesis
        by (subst walk_back.simps) (auto intro!: exI [where x = "[]"] replays_Nil)
    next
      case False
      with 2 have go: "\<not> (nHeight b + 1 < StartHeight chk \<or> Period chk \<le> 0)" by simp
      from "2.IH" [OF go "2.prems", of "b # vs"] obtain c1 p1 v s where
        w: "walk_back chk c (GetAncestor b (nHeight b - Period chk)) (b # vs) = Some (c1, p1, v @ b # vs)"
        and rest: "c1 p1 = Some s" "cache_ok chk c1"
          "replays chk v s (GetAncestor b (nHeight b - Period chk))"
        by blast
      have "walk_back chk c (Some b) vs = Some (c1, p1, (v @ [b]) @ vs)"
        using None False w by (subst walk_back.simps) simp
      moreover have "replays chk (v @ [b]) s (Some b)"
        using rest(3) go by (rule replays_snoc)
      ultimately show ?thesis using rest by blast
    qed
  qed
qed

lemma GetStateFor_aligned:
  assumes "0 < Period chk" "cache_ok chk c" "\<not> fast_path k chk"
    "(case pindexPrev of None \<Rightarrow> Inr None | Some b \<Rightarrow> period_boundary (Period chk) b) = Inr p"
  shows "case state_at chk p of
           Inl e \<Rightarrow> GetStateFor k chk pindexPrev c = Some (Inl e)
         | Inr s \<Rightarrow> (\<exists>c'. cache_ok chk c' \<and> GetStateFor k chk pindexPrev c = Some (Inr (s, c')))"
proof -
  from walk_back_correct [OF assms(1,2), of p "[]"] obtain c1 p1 v s where
    w: "walk_back chk c p [] = Some (c1, p1, v)" "c1 p1 = Some s" "cache_ok chk c1"
       "replays chk v s p" by auto
  have g: "GetStateFor k chk pindexPrev c = Some (forward_pass chk s c1 v)"
    using assms(3,4) w(1,2) by (auto simp: GetStateFor_def fast_path_def)
  show ?thesis
  proof (cases "state_at chk p")
    case (Inl e)
    with w(4) [unfolded replays_def, rule_format, OF w(3), of "[]"]
    have "forward_pass chk s c1 (v @ []) = Inl e" by simp
    with g Inl show ?thesis by simp
  next
    case (Inr sp)
    with w(4) [unfolded replays_def, rule_format, OF w(3), of "[]"]
    obtain c' where "cache_ok chk c'" "forward_pass chk s c1 (v @ []) = forward_pass chk sp c' []"
      by auto
    with g Inr show ?thesis by auto
  qed
qed



lemma smod_nonneg: "0 \<le> a \<Longrightarrow> 0 < b \<Longrightarrow> a smod b = a mod (b :: int)"
  by (cases "a = 0") (simp_all add: smod_int_alt_def)

lemma period_boundary_wf:
  "wf_chain b \<Longrightarrow> 0 < n \<Longrightarrow>
     period_boundary n b = Inr (GetAncestor b (nHeight b - (nHeight b + 1) mod n))"
  using wf_chain_nonneg [of b] by (simp add: period_boundary_def smod_nonneg)

lemma boundary_None: "is_boundary chk None"
  by (simp add: is_boundary_def)

lemma boundary_parent:
  assumes "is_boundary chk (Some b)"
  shows "is_boundary chk (GetAncestor b (nHeight b - Period chk))"
proof (cases "GetAncestor b (nHeight b - Period chk)")
  case None
  then show ?thesis by (simp add: is_boundary_def)
next
  case (Some a)
  from assms have wf: "wf_chain b" and al: "(nHeight b + 1) mod Period chk = 0"
    by (simp_all add: is_boundary_def)
  from GetAncestor_height [OF Some] have h: "nHeight a + 1 = nHeight b + 1 - Period chk" by simp
  from al have "Period chk dvd nHeight b + 1" by (simp add: dvd_eq_mod_eq_0)
  then have "Period chk dvd nHeight b + 1 - Period chk" by (rule dvd_diff) simp
  then have "Period chk dvd nHeight a + 1" by (simp only: h)
  then have "(nHeight a + 1) mod Period chk = 0" by (rule dvd_imp_mod_0)
  with GetAncestor_wf [OF wf Some] Some show ?thesis by (simp add: is_boundary_def)
qed

lemma boundary_align:
  assumes "wf_ptr p" "0 < Period chk"
  shows "is_boundary chk (boundary_of chk p)"
proof (cases p)
  case None
  then show ?thesis by (simp add: boundary_of_def is_boundary_def)
next
  case (Some b)
  with assms have wf: "wf_chain b" by (simp add: wf_ptr_def)
  show ?thesis
  proof (cases "boundary_of chk p")
    case None
    then show ?thesis by (simp add: is_boundary_def)
  next
    case a: (Some a)
    with Some have ga: "GetAncestor b (nHeight b - (nHeight b + 1) mod Period chk) = Some a"
      by (simp add: boundary_of_def)
    from GetAncestor_height [OF ga] have "nHeight a + 1 = nHeight b + 1 - (nHeight b + 1) mod Period chk"
      by simp
    then have "(nHeight a + 1) mod Period chk = 0" by (simp add: minus_mod_eq_mult_div)
    with GetAncestor_wf [OF wf ga] a show ?thesis by (simp add: is_boundary_def)
  qed
qed

lemma align_boundary: "is_boundary chk p \<Longrightarrow> boundary_of chk p = p"
  using wf_chain_nonneg by (auto simp: is_boundary_def boundary_of_def GetAncestor_self split: option.splits)

lemma aligned_input:
  assumes "wf_ptr p" "0 < Period chk"
  shows "(case p of None \<Rightarrow> Inr None | Some b \<Rightarrow> period_boundary (Period chk) b) = Inr (boundary_of chk p)"
  using assms by (auto simp: wf_ptr_def boundary_of_def period_boundary_wf split: option.splits)

lemma boundary_enough:
  assumes "is_boundary chk (Some b)" "0 < Period chk"
  shows "nat (Period chk) \<le> length (chain b)"
proof -
  from assms have wf: "wf_chain b" and al: "(nHeight b + 1) mod Period chk = 0"
    by (simp_all add: is_boundary_def)
  from al have "Period chk dvd nHeight b + 1" by (simp add: dvd_eq_mod_eq_0)
  moreover have "0 < nHeight b + 1" using wf_chain_nonneg [OF wf] by simp
  ultimately have "Period chk \<le> nHeight b + 1" by (rule zdvd_imp_le)
  with length_chain [OF wf] show ?thesis by simp
qed

lemma next_state_returns:
  assumes "is_boundary chk (Some b)" "0 < Period chk"
  shows "\<exists>s'. next_state chk s b = Inr s'"
proof -
  from count_period_returns [OF boundary_enough [OF assms]] obtain r where
    "count_period chk (nat (Period chk)) (Some b) 0 = Inr r" by blast
  then show ?thesis by (cases s) (simp_all add: next_state_def Let_def)
qed

lemma state_at_returns:
  "is_boundary chk p \<Longrightarrow> 0 < Period chk \<Longrightarrow> \<exists>s. state_at chk p = Inr s"
proof (induction chk p rule: state_at.induct)
  case (1 chk)
  then show ?case by simp
next
  case (2 chk b)
  show ?case
  proof (cases "nHeight b + 1 < StartHeight chk")
    case True
    then show ?thesis by simp
  next
    case False
    with 2 have go: "\<not> (nHeight b + 1 < StartHeight chk \<or> Period chk \<le> 0)" by simp
    from "2.IH" [OF go boundary_parent [OF "2.prems"(1)] "2.prems"(2)] obtain s0 where
      s0: "state_at chk (GetAncestor b (nHeight b - Period chk)) = Inr s0" by blast
    from next_state_returns [OF "2.prems", of s0] obtain s' where "next_state chk s0 b = Inr s'"
      by blast
    with s0 go show ?thesis by simp
  qed
qed

lemma GetStateFor_correct:
  assumes "0 < Period chk" "cache_ok chk c" "\<not> fast_path k chk" "wf_ptr p"
  shows "\<exists>s c'. GetStateFor k chk p c = Some (Inr (s, c')) \<and> cache_ok chk c'
            \<and> state_at chk (boundary_of chk p) = Inr s"
proof -
  from state_at_returns [OF boundary_align [OF assms(4,1)] assms(1)] obtain s where
    s: "state_at chk (boundary_of chk p) = Inr s" by blast
  from GetStateFor_aligned [OF assms(1,2,3) aligned_input [OF assms(4,1)]] s
  show ?thesis by auto
qed

lemma GetStateFor_fast:
  "fast_path k chk \<Longrightarrow> GetStateFor k chk p c =
     Some (Inr (if StartHeight chk = NEVER_ACTIVE k \<and> TimeoutHeight chk = NEVER_ACTIVE k
                then DEFINED else ACTIVE, c))"
  by (auto simp: GetStateFor_def fast_path_def)

lemma GetStateFor_preserves:
  assumes "0 < Period chk" "cache_ok chk c" "GetStateFor k chk p c = Some (Inr (s, c'))"
  shows "cache_ok chk c'"
proof (cases "fast_path k chk")
  case True
  from GetStateFor_fast [OF True, of p c] assms show ?thesis by simp
next
  case False
  have "\<exists>q. (case p of None \<Rightarrow> Inr None | Some b \<Rightarrow> period_boundary (Period chk) b) = Inr q"
    using assms(1) by (auto simp: period_boundary_def split: option.splits)
  then obtain q where q: "(case p of None \<Rightarrow> Inr None | Some b \<Rightarrow> period_boundary (Period chk) b) = Inr q" ..
  from GetStateFor_aligned [OF assms(1,2) False q] assms(3) show ?thesis
    by (cases "state_at chk q") auto
qed

lemma reachable_ok: "cache_reachable k chk c \<Longrightarrow> 0 < Period chk \<Longrightarrow> cache_ok chk c"
  by (induction rule: cache_reachable.induct) (auto intro: cache_ok_empty GetStateFor_preserves)



lemma since_loop_correct:
  assumes "0 < Period chk" "\<not> fast_path k chk"
  shows "is_boundary chk (Some b) \<Longrightarrow> cache_ok chk c \<Longrightarrow>
     \<exists>c'. since_loop k chk s b (GetAncestor b (nHeight b - Period chk)) c
            = Some (Inr (since_block chk s b, c')) \<and> cache_ok chk c'"
  using assms
proof (induction chk s b arbitrary: c rule: since_block.induct)
  case (1 chk s b)
  note pos = \<open>0 < Period chk\<close>
  show ?case
  proof (cases "GetAncestor b (nHeight b - Period chk)")
    case None
    with pos "1.prems" show ?thesis
      by (subst since_loop.simps, subst since_block.simps) simp
  next
    case (Some a)
    from boundary_parent [OF "1.prems"(1)] Some have ba: "is_boundary chk (Some a)" by simp
    then have wfa: "wf_ptr (Some a)" by (simp add: is_boundary_def wf_ptr_def)
    from GetStateFor_correct [OF pos "1.prems"(2) "1.prems"(4) wfa] align_boundary [OF ba]
    obtain sa c1 where g: "GetStateFor k chk (Some a) c = Some (Inr (sa, c1))"
      and ok1: "cache_ok chk c1" and sa: "state_at chk (Some a) = Inr sa"
      by auto
    show ?thesis
    proof (cases "sa = s")
      case True
      from pos have np: "\<not> Period chk \<le> 0" by simp
      from sa True have eq: "state_at chk (Some a) = Inr s" by simp
      from "1.IH" [OF np Some eq ba ok1 pos "1.prems"(4)] obtain c' where
        "since_loop k chk s a (GetAncestor a (nHeight a - Period chk)) c1
           = Some (Inr (since_block chk s a, c'))" "cache_ok chk c'" by blast
      with Some g True sa pos show ?thesis
        by (subst since_loop.simps, subst since_block.simps) simp
    next
      case False
      with Some g sa pos ok1 show ?thesis
        by (subst since_loop.simps, subst since_block.simps) auto
    qed
  qed
qed

lemma since_block_boundary:
  "is_boundary chk (Some b) \<Longrightarrow> is_boundary chk (Some (since_block chk s b))"
proof (induction chk s b rule: since_block.induct)
  case (1 chk s b)
  show ?case
  proof (cases "Period chk \<le> 0")
    case True
    with 1 show ?thesis by (subst since_block.simps) simp
  next
    case False
    show ?thesis
    proof (cases "GetAncestor b (nHeight b - Period chk)")
      case None
      with False 1 show ?thesis by (subst since_block.simps) simp
    next
      case (Some a)
      from boundary_parent [OF "1.prems"] Some have ba: "is_boundary chk (Some a)" by simp
      show ?thesis
      proof (cases "state_at chk (Some a) = Inr s")
        case True
        from "1.IH" [OF False Some True ba] False Some True show ?thesis
          by (subst since_block.simps) simp
      next
        case no: False
        with False Some 1 show ?thesis by (subst since_block.simps) simp
      qed
    qed
  qed
qed

text \<open>
  The loop ends on the block it started from exactly when the period before is in another
  state, or there is none.
\<close>

lemma since_block_height:
  "0 < Period chk \<Longrightarrow> nHeight (since_block chk s b) \<le> nHeight b \<and>
     (nHeight (since_block chk s b) = nHeight b \<longleftrightarrow>
        (case GetAncestor b (nHeight b - Period chk) of None \<Rightarrow> True
         | Some a \<Rightarrow> state_at chk (Some a) \<noteq> Inr s))"
proof (induction chk s b rule: since_block.induct)
  case (1 chk s b)
  from 1 have np: "\<not> Period chk \<le> 0" by simp
  show ?case
  proof (cases "GetAncestor b (nHeight b - Period chk)")
    case None
    with np show ?thesis by (subst (1 2) since_block.simps) simp
  next
    case (Some a)
    from GetAncestor_height [OF Some] "1.prems" have lt: "nHeight a < nHeight b" by simp
    show ?thesis
    proof (cases "state_at chk (Some a) = Inr s")
      case True
      from "1.IH" [OF np Some True "1.prems"] have "nHeight (since_block chk s a) \<le> nHeight a" by simp
      with lt np Some True show ?thesis by (subst (1 2) since_block.simps) simp
    next
      case False
      with np Some show ?thesis by (subst (1 2) since_block.simps) simp
    qed
  qed
qed

lemma GetStateSinceHeightFor_correct:
  assumes pos: "0 < Period chk" and ok: "cache_ok chk c" and nf: "\<not> fast_path k chk"
    and wf: "wf_ptr p" and s: "state_at chk (boundary_of chk p) = Inr s"
  shows "\<exists>c'. GetStateSinceHeightFor k chk p c =
            Some (Inr (if s = DEFINED then 0
                       else (case boundary_of chk p of None \<Rightarrow> 0
                             | Some b \<Rightarrow> nHeight (since_block chk s b) + 1), c'))
          \<and> cache_ok chk c'"
proof -
  from GetStateFor_correct [OF pos ok nf wf] s obtain c1 where
    g: "GetStateFor k chk p c = Some (Inr (s, c1))" and ok1: "cache_ok chk c1" by auto
  from nf have na: "StartHeight chk \<noteq> ALWAYS_ACTIVE k" by (simp add: fast_path_def)
  show ?thesis
  proof (cases "s = DEFINED")
    case True
    with g ok1 na show ?thesis by (simp add: GetStateSinceHeightFor_def)
  next
    case False
    with s obtain b where al: "boundary_of chk p = Some b" by (cases "boundary_of chk p") auto
    then obtain b0 where p: "p = Some b0" by (cases p) (auto simp: boundary_of_def)
    with wf have wf0: "wf_chain b0" by (simp add: wf_ptr_def)
    from al p have pb: "period_boundary (Period chk) b0 = Inr (Some b)"
      using period_boundary_wf [OF wf0 pos] by (simp add: boundary_of_def)
    from boundary_align [OF wf pos] al have bb: "is_boundary chk (Some b)" by simp
    from since_loop_correct [OF pos nf bb ok1, of s] obtain c' where
      "since_loop k chk s b (GetAncestor b (nHeight b - Period chk)) c1
         = Some (Inr (since_block chk s b, c'))" "cache_ok chk c'" by blast
    with g False na p pb al show ?thesis by (simp add: GetStateSinceHeightFor_def)
  qed
qed

lemma state_for_reachable:
  assumes "0 < Period chk" "cache_reachable k chk c" "\<not> fast_path k chk" "wf_ptr p"
  shows "\<exists>s. returned (GetStateFor k chk p c) = Some s \<and> state_at chk (boundary_of chk p) = Inr s"
  using GetStateFor_correct [OF assms(1) reachable_ok [OF assms(2,1)] assms(3,4)]
  by (auto simp: returned_def)

lemma state_for_fast:
  "fast_path k chk \<Longrightarrow> returned (GetStateFor k chk p c) =
     Some (if StartHeight chk = NEVER_ACTIVE k \<and> TimeoutHeight chk = NEVER_ACTIVE k
           then DEFINED else ACTIVE)"
  by (simp add: GetStateFor_fast returned_def)

lemma boundary_of_wf: "wf_ptr p \<Longrightarrow> 0 < Period chk \<Longrightarrow> wf_ptr (boundary_of chk p)"
  using boundary_align [of p chk] by (auto simp: is_boundary_def wf_ptr_def split: option.splits)

lemma boundary_of_idem:
  "wf_ptr p \<Longrightarrow> 0 < Period chk \<Longrightarrow> boundary_of chk (boundary_of chk p) = boundary_of chk p"
  by (rule align_boundary) (rule boundary_align)

section \<open>The state machine\<close>

lemma is_boundary_wf_ptr: "is_boundary chk p \<Longrightarrow> wf_ptr p"
  by (auto simp: is_boundary_def wf_ptr_def split: option.splits)

lemma state_for_boundary:
  assumes "0 < Period chk" "cache_reachable k chk c" "\<not> fast_path k chk" "is_boundary chk p"
  shows "\<exists>s. returned (GetStateFor k chk p c) = Some s \<and> state_at chk p = Inr s"
  using state_for_reachable [OF assms(1,2,3) is_boundary_wf_ptr [OF assms(4)]]
    align_boundary [OF assms(4)] by simp

lemma state_at_before_start:
  assumes "0 < Period chk" "nHeight b + 1 < StartHeight chk"
  shows "state_at chk (GetAncestor b (nHeight b - Period chk)) = Inr DEFINED"
proof (cases "GetAncestor b (nHeight b - Period chk)")
  case None
  then show ?thesis by simp
next
  case (Some a)
  from GetAncestor_height [OF Some] assms have "nHeight a + 1 < StartHeight chk" by simp
  with Some show ?thesis by simp
qed

lemma state_at_step:
  assumes "0 < Period chk"
  shows "state_at chk (Some b) =
     (case state_at chk (GetAncestor b (nHeight b - Period chk)) of
        Inl e \<Rightarrow> Inl e | Inr s0 \<Rightarrow> next_state chk s0 b)"
proof (cases "nHeight b + 1 < StartHeight chk")
  case True
  with state_at_before_start [OF assms True] show ?thesis by (simp add: next_state_def)
next
  case False
  with assms show ?thesis by simp
qed

lemma next_state_started:
  assumes "is_boundary chk (Some b)" "0 < Period chk"
  shows "next_state chk STARTED b =
     Inr (if Threshold chk \<le> int (length (filter (Condition chk) (take (nat (Period chk)) (chain b))))
          then LOCKED_IN
          else if LockinOnTimeout chk \<and> TimeoutHeight chk \<le> nHeight b + 1 + Period chk
          then MUST_SIGNAL
          else if TimeoutHeight chk \<le> nHeight b + 1 then FAILED
          else STARTED)"
proof -
  from count_period_returns [OF boundary_enough [OF assms]] obtain r where
    r: "count_period chk (nat (Period chk)) (Some b) 0 = Inr r" by blast
  from count_period_result [OF r] r show ?thesis by (simp add: next_state_def Let_def)
qed

lemma next_state_failed:
  assumes "LockinOnTimeout chk" "0 < Period chk" "next_state chk s0 b = Inr FAILED"
  shows "s0 = FAILED"
  using assms by (cases s0) (auto simp: next_state_def Let_def split: sum.splits if_splits)

lemma state_at_not_failed:
  "LockinOnTimeout chk \<Longrightarrow> 0 < Period chk \<Longrightarrow> state_at chk p \<noteq> Inr FAILED"
proof (induction chk p rule: state_at.induct)
  case (1 chk)
  then show ?case by simp
next
  case (2 chk b)
  show ?case
  proof (cases "nHeight b + 1 < StartHeight chk \<or> Period chk \<le> 0")
    case True
    then show ?thesis by simp
  next
    case False
    from "2.IH" [OF False "2.prems"] have ih: "state_at chk (GetAncestor b (nHeight b - Period chk)) \<noteq> Inr FAILED" .
    show ?thesis
    proof
      assume f: "state_at chk (Some b) = Inr FAILED"
      with False obtain s0 where s0: "state_at chk (GetAncestor b (nHeight b - Period chk)) = Inr s0"
        "next_state chk s0 b = Inr FAILED" by (auto split: sum.splits)
      from next_state_failed [OF "2.prems" s0(2)] s0(1) ih show False by simp
    qed
  qed
qed

lemma next_state_active:
  assumes "next_state chk s0 b = Inr ACTIVE"
  shows "s0 = ACTIVE \<or> (s0 = LOCKED_IN \<and> MinActivationHeight chk \<le> nHeight b + 1)"
  using assms by (cases s0) (auto simp: next_state_def Let_def split: sum.splits if_splits)

lemma state_at_active:
  "0 < Period chk \<Longrightarrow> state_at chk p = Inr ACTIVE \<Longrightarrow>
     (\<exists>b. p = Some b \<and> MinActivationHeight chk \<le> nHeight b + 1)"
proof (induction chk p rule: state_at.induct)
  case (1 chk)
  then show ?case by simp
next
  case (2 chk b)
  from "2.prems" have go: "\<not> (nHeight b + 1 < StartHeight chk \<or> Period chk \<le> 0)"
    by (auto split: if_splits)
  with "2.prems" obtain s0 where s0: "state_at chk (GetAncestor b (nHeight b - Period chk)) = Inr s0"
    "next_state chk s0 b = Inr ACTIVE" by (auto split: sum.splits)
  from next_state_active [OF s0(2)] show ?case
  proof
    assume "s0 = ACTIVE"
    with "2.IH" [OF go "2.prems"(1)] s0(1) obtain a where
      a: "GetAncestor b (nHeight b - Period chk) = Some a" "MinActivationHeight chk \<le> nHeight a + 1"
      by auto
    from GetAncestor_height [OF a(1)] a(2) "2.prems"(1) show ?thesis by simp
  next
    assume "s0 = LOCKED_IN \<and> MinActivationHeight chk \<le> nHeight b + 1"
    then show ?thesis by simp
  qed
qed

lemma boundary_of_height:
  assumes "boundary_of chk (Some q) = Some b" "0 \<le> nHeight q" "0 < Period chk"
  shows "nHeight b \<le> nHeight q"
proof -
  from assms(1) have "GetAncestor q (nHeight q - (nHeight q + 1) mod Period chk) = Some b"
    by (simp add: boundary_of_def)
  from GetAncestor_height [OF this] have "nHeight b = nHeight q - (nHeight q + 1) mod Period chk" .
  moreover have "0 \<le> (nHeight q + 1) mod Period chk" using assms(3) by simp
  ultimately show ?thesis by simp
qed

lemma wf_chain_pprev:
  "wf_chain B \<Longrightarrow> wf_ptr (pprev B) \<and> prev_next_height (pprev B) = nHeight B"
  by (cases B) (auto simp: wf_ptr_def prev_next_height_def split: option.splits)

lemma first_period_boundary:
  assumes "wf_chain B" "nHeight B < Period chk"
  shows "boundary_of chk (pprev B) = None"
proof (cases "pprev B")
  case None
  then show ?thesis by (simp add: boundary_of_def)
next
  case (Some q)
  with wf_chain_pprev [OF assms(1)] have q: "wf_chain q" "nHeight q + 1 = nHeight B"
    by (simp_all add: wf_ptr_def prev_next_height_def)
  from wf_chain_nonneg [OF q(1)] q(2) assms(2) have "(nHeight q + 1) mod Period chk = nHeight q + 1"
    by simp
  with Some show ?thesis by (simp add: boundary_of_def GetAncestor_negative)
qed

lemma fast_path_states:
  "fast_path k chk \<Longrightarrow> returned (GetStateFor k chk p c) = Some s \<Longrightarrow> s = DEFINED \<or> s = ACTIVE"
  by (simp add: state_for_fast split: if_splits)

section \<open>Statistics and since-height\<close>

lemma chain_heights: "wf_chain b \<Longrightarrow> x \<in> set (chain b) \<Longrightarrow> nHeight x \<le> nHeight b"
  by (induction b rule: chain.induct) (fastforce split: option.splits)

lemma int32_sub_in_range:
  "- 2147483648 \<le> a - b \<Longrightarrow> a - b < 2147483648 \<Longrightarrow> int32_sub a b = a - b"
  by (simp add: int32_sub_def)

lemma count_above_le:
  "wf_chain b \<Longrightarrow> hE \<le> nHeight b \<Longrightarrow> 0 \<le> hE \<Longrightarrow>
     int (length (filter (\<lambda>x. hE < nHeight x \<and> Q x) (chain b))) \<le> nHeight b - hE"
proof (induction b rule: chain.induct)
  case (1 h v p)
  show ?case
  proof (cases p)
    case None
    then show ?thesis using "1.prems" by simp
  next
    case (Some q)
    with "1.prems" have q: "h = nHeight q + 1" "wf_chain q" by simp_all
    show ?thesis
    proof (cases "hE = h")
      case True
      have "\<forall>x \<in> set (chain (CBlockIndex h v p)). \<not> hE < nHeight x"
        using chain_heights [OF "1.prems"(1)] True by fastforce
      then have "filter (\<lambda>x. hE < nHeight x \<and> Q x) (chain (CBlockIndex h v p)) = []"
        by (simp only: filter_empty_conv) blast
      with True show ?thesis by simp
    next
      case False
      with "1.prems" q have le: "hE \<le> nHeight q" by simp
      from "1.IH" [OF Some q(2) le "1.prems"(3)] Some q show ?thesis by simp
    qed
  qed
qed

text \<open>
  Outside \<open>0 \<le> threshold \<le> period\<close> the subtraction of line 138 wraps: with period 2
  and threshold \<open>INT_MIN\<close> nothing is possible any more, though no block is missing.
\<close>

lemma statistics_threshold_int_min:
  "GetStateStatisticsFor checker_int_min (Some (quiet_block 2)) =
     Inr \<lparr> period = 2, threshold = - 2147483648, elapsed = 1, count = 0, possible = False \<rparr>"
  by code_simp

lemma count_to_boundary_result:
  "wf_chain b \<Longrightarrow> hE \<le> nHeight b \<Longrightarrow> 0 \<le> hE \<Longrightarrow>
     count_to_boundary chk hE (Some b) c =
       Inr (c + int (length (filter (\<lambda>x. hE < nHeight x \<and> Condition chk x) (chain b))))"
proof (induction b arbitrary: c rule: chain.induct)
  case (1 h v p)
  show ?case
  proof (cases "hE = h")
    case True
    have "\<forall>x \<in> set (chain (CBlockIndex h v p)). \<not> hE < nHeight x"
      using chain_heights [OF "1.prems"(1)] True by fastforce
    then have "filter (\<lambda>x. hE < nHeight x \<and> Condition chk x) (chain (CBlockIndex h v p)) = []"
      by (simp only: filter_empty_conv) blast
    with True show ?thesis by simp
  next
    case False
    with "1.prems" have lt: "hE < h" by simp
    with "1.prems" obtain q where q: "p = Some q" "h = nHeight q + 1" "wf_chain q"
      by (cases p) auto
    from lt q have le: "hE \<le> nHeight q" by simp
    from "1.IH" [OF q(1) q(3) le "1.prems"(3)] False q lt show ?thesis by simp
  qed
qed

lemma next_state_defined:
  assumes "next_state chk s0 b = Inr DEFINED"
  shows "s0 = DEFINED"
  using assms by (cases s0) (auto simp: next_state_def Let_def split: sum.splits if_splits)

lemma state_at_defined_parent:
  assumes "0 < Period chk" "state_at chk (Some b) = Inr DEFINED"
  shows "state_at chk (GetAncestor b (nHeight b - Period chk)) = Inr DEFINED"
proof (cases "state_at chk (GetAncestor b (nHeight b - Period chk))")
  case (Inl e)
  with assms(2) show ?thesis unfolding state_at_step [OF assms(1), of b] by simp
next
  case (Inr s0)
  with assms(2) have "next_state chk s0 b = Inr DEFINED"
    unfolding state_at_step [OF assms(1), of b] by simp
  from next_state_defined [OF this] Inr show ?thesis by simp
qed

lemma wf_ptr_nonneg: "wf_ptr p \<Longrightarrow> 0 \<le> prev_next_height p"
  using wf_chain_nonneg by (auto simp: wf_ptr_def prev_next_height_def split: option.splits)

lemma boundary_of_next_height:
  assumes "wf_ptr p" "0 < Period chk"
  shows "prev_next_height (boundary_of chk p) \<le> prev_next_height p"
proof (cases "boundary_of chk p")
  case None
  with wf_ptr_nonneg [OF assms(1)] show ?thesis by (simp add: prev_next_height_def)
next
  case (Some b)
  then obtain q where q: "p = Some q" by (cases p) (auto simp: boundary_of_def)
  with assms(1) have "0 \<le> nHeight q" by (simp add: wf_ptr_def wf_chain_nonneg)
  from boundary_of_height [OF _ this assms(2)] Some q show ?thesis
    by (simp add: prev_next_height_def)
qed

lemma period_before_boundary:
  "is_boundary chk p \<Longrightarrow> is_boundary chk (period_before chk p)"
  by (cases p) (simp_all add: period_before_def boundary_parent boundary_None)

lemma since_for_reachable:
  assumes "0 < Period chk" "cache_reachable k chk c" "\<not> fast_path k chk" "wf_ptr p"
    "state_at chk (boundary_of chk p) = Inr s"
  shows "returned (GetStateSinceHeightFor k chk p c) =
     Some (if s = DEFINED then 0
           else (case boundary_of chk p of None \<Rightarrow> 0
                 | Some b \<Rightarrow> nHeight (since_block chk s b) + 1))"
  using GetStateSinceHeightFor_correct [OF assms(1) reachable_ok [OF assms(2,1)] assms(3,4,5)]
  by (auto simp: returned_def)

lemma since_fast:
  "fast_path k chk \<Longrightarrow> returned (GetStateSinceHeightFor k chk p c) = Some 0"
  by (auto simp: GetStateSinceHeightFor_def GetStateFor_def fast_path_def returned_def)

lemma since_block_first:
  assumes "0 < Period chk"
    "state_at chk (GetAncestor b (nHeight b - Period chk)) = Inr s0" "s0 \<noteq> s"
  shows "since_block chk s b = b"
proof (cases "GetAncestor b (nHeight b - Period chk)")
  case None
  with assms(1) show ?thesis by (subst since_block.simps) simp
next
  case (Some a)
  with assms(2,3) have "state_at chk (Some a) \<noteq> Inr s" by simp
  with Some assms(1) show ?thesis by (subst since_block.simps) simp
qed

lemma since_at_first:
  assumes "0 < Period chk" "cache_reachable k chk c" "\<not> fast_path k chk"
    "is_boundary chk (Some b)" "state_at chk (Some b) = Inr s" "s \<noteq> DEFINED"
    "state_at chk (GetAncestor b (nHeight b - Period chk)) = Inr s0" "s0 \<noteq> s"
  shows "returned (GetStateSinceHeightFor k chk (Some b) c) = Some (nHeight b + 1)"
proof -
  from align_boundary [OF assms(4)] have al: "boundary_of chk (Some b) = Some b" .
  from assms(5) al have st: "state_at chk (boundary_of chk (Some b)) = Inr s" by simp
  from since_for_reachable [OF assms(1,2,3) is_boundary_wf_ptr [OF assms(4)] st]
    since_block_first [OF assms(1,7,8)] al assms(6)
  show ?thesis by simp
qed

section \<open>The claims\<close>

text \<open>
  C1. The step from \<open>STARTED\<close>: for a boundary block \<open>P'\<close> (its height plus one a
  multiple of the period) whose period predecessor is in state \<open>STARTED\<close>,
  \<open>GetStateFor\<close> returns \<open>LOCKED_IN\<close> when at least \<open>threshold\<close> of the \<open>period\<close>
  blocks that end at \<open>P'\<close> satisfy the condition; otherwise \<open>MUST_SIGNAL\<close> when
  lock-in on timeout is set and \<open>height + period \<ge> timeout_height\<close>; otherwise
  \<open>FAILED\<close> when \<open>height \<ge> timeout_height\<close>; otherwise \<open>STARTED\<close>, where
  \<open>height = P'.height + 1\<close>. So it is \<open>LOCKED_IN\<close> exactly when the threshold is
  met, whatever the timeout.
\<close>

theorem started_transition:
  assumes "0 < Period chk" and "wf_chain P'" and "(nHeight P' + 1) mod Period chk = 0"
    and "cache_reachable k chk c0" and "cache_reachable k chk c"
    and "returned (GetStateFor k chk (GetAncestor P' (nHeight P' - Period chk)) c0) = Some STARTED"
  shows "returned (GetStateFor k chk (Some P') c) =
           Some (if Threshold chk
                      \<le> int (length (filter (Condition chk) (take (nat (Period chk)) (chain P'))))
                 then LOCKED_IN
                 else if LockinOnTimeout chk \<and> TimeoutHeight chk \<le> nHeight P' + 1 + Period chk
                 then MUST_SIGNAL
                 else if TimeoutHeight chk \<le> nHeight P' + 1 then FAILED
                 else STARTED)
         \<and> (returned (GetStateFor k chk (Some P') c) = Some LOCKED_IN
              \<longleftrightarrow> Threshold chk
                    \<le> int (length (filter (Condition chk) (take (nat (Period chk)) (chain P')))))"
proof -
  from assms(6) have nf: "\<not> fast_path k chk" by (auto dest: fast_path_states)
  from assms(2,3) have b: "is_boundary chk (Some P')" by (simp add: is_boundary_def)
  from state_for_boundary [OF assms(1,4) nf boundary_parent [OF b]] assms(6)
  have "state_at chk (GetAncestor P' (nHeight P' - Period chk)) = Inr STARTED" by auto
  with state_at_step [OF assms(1), of P'] next_state_started [OF b assms(1)]
  have "state_at chk (Some P') =
     Inr (if Threshold chk \<le> int (length (filter (Condition chk) (take (nat (Period chk)) (chain P'))))
          then LOCKED_IN
          else if LockinOnTimeout chk \<and> TimeoutHeight chk \<le> nHeight P' + 1 + Period chk
          then MUST_SIGNAL
          else if TimeoutHeight chk \<le> nHeight P' + 1 then FAILED
          else STARTED)" by simp
  with state_for_boundary [OF assms(1,5) nf b] show ?thesis by auto
qed

theorem started_transition_witness:
  "0 < Period checker_p2 \<and> wf_chain (signalling_block 3)
   \<and> (nHeight (signalling_block 3) + 1) mod Period checker_p2 = 0
   \<and> cache_reachable sentinels0 checker_p2 Map.empty
   \<and> returned (GetStateFor sentinels0 checker_p2
         (GetAncestor (signalling_block 3) (nHeight (signalling_block 3) - Period checker_p2))
         Map.empty) = Some STARTED
   \<and> returned (GetStateFor sentinels0 checker_p2 (Some (signalling_block 3)) Map.empty)
       = Some LOCKED_IN"
proof -
  have p: "0 < Period checker_p2" by (simp add: checker_p2_def TestConditionChecker_def)
  have w: "wf_chain (signalling_block 3)" by (simp add: signalling_block_def mined_block_wf)
  have a: "(nHeight (signalling_block 3) + 1) mod Period checker_p2 = 0" by code_simp
  have r: "cache_reachable sentinels0 checker_p2 Map.empty" by (rule cache_reachable.empty)
  have s: "returned (GetStateFor sentinels0 checker_p2
         (GetAncestor (signalling_block 3) (nHeight (signalling_block 3) - Period checker_p2))
         Map.empty) = Some STARTED" by code_simp
  have n: "Threshold checker_p2
      \<le> int (length (filter (Condition checker_p2)
               (take (nat (Period checker_p2)) (chain (signalling_block 3)))))" by code_simp
  from started_transition [OF p w a r r s] n
  have "returned (GetStateFor sentinels0 checker_p2 (Some (signalling_block 3)) Map.empty)
       = Some LOCKED_IN" by simp
  with p w a r s show ?thesis by blast
qed

text \<open>
  C2, as amended. Scenario S1 (period 32, threshold 28, bit 0, start 0, timeout 10000, no
  lock-in on timeout, minimum activation height 0): on a chain whose blocks of heights
  32 to 63 hold exactly 28 signalling blocks, in any order and whatever the other blocks
  signal, the state for block 31 is \<open>STARTED\<close> with since-height 32, for block 63
  \<open>LOCKED_IN\<close> with since-height 64 and for block 95 \<open>ACTIVE\<close> with since-height 96.
  The since-heights 0, 32 and 64 of the claim are what the code does not return: the
  first period is \<open>DEFINED\<close>, so every later state starts one period later.
\<close>

theorem scenario_S1:
  assumes "ALWAYS_ACTIVE k \<noteq> 0"
    and "wf_chain b95" and "nHeight b95 = 95"
    and "GetAncestor b95 63 = Some b63" and "GetAncestor b63 31 = Some b31"
    and "length (filter (Condition checker_S1) (take 32 (chain b63))) = 28"
    and "cache_reachable k checker_S1 c"
  shows "returned (GetStateFor k checker_S1 (Some b31) c) = Some STARTED
       \<and> returned (GetStateSinceHeightFor k checker_S1 (Some b31) c) = Some 32
       \<and> returned (GetStateFor k checker_S1 (Some b63) c) = Some LOCKED_IN
       \<and> returned (GetStateSinceHeightFor k checker_S1 (Some b63) c) = Some 64
       \<and> returned (GetStateFor k checker_S1 (Some b95) c) = Some ACTIVE
       \<and> returned (GetStateSinceHeightFor k checker_S1 (Some b95) c) = Some 96"
proof -
  let ?chk = checker_S1
  have cfg: "Period ?chk = 32" "Threshold ?chk = 28" "StartHeight ?chk = 0"
    "TimeoutHeight ?chk = 10000" "MinActivationHeight ?chk = 0" "\<not> LockinOnTimeout ?chk"
    by (simp_all add: checker_S1_def TestConditionChecker_def)
  have pos: "0 < Period ?chk" by (simp add: cfg)
  from assms(1) have nf: "\<not> fast_path k ?chk" by (auto simp: fast_path_def cfg)
  from GetAncestor_wf [OF assms(2,4)] have wf63: "wf_chain b63" .
  from GetAncestor_wf [OF wf63 assms(5)] have wf31: "wf_chain b31" .
  from GetAncestor_height [OF assms(4)] have h63: "nHeight b63 = 63" .
  from GetAncestor_height [OF assms(5)] have h31: "nHeight b31 = 31" .
  have b31: "is_boundary ?chk (Some b31)" using wf31 h31 by (simp add: is_boundary_def cfg)
  have b63: "is_boundary ?chk (Some b63)" using wf63 h63 by (simp add: is_boundary_def cfg)
  have b95: "is_boundary ?chk (Some b95)" using assms(2,3) by (simp add: is_boundary_def cfg)
  have p31: "GetAncestor b31 (nHeight b31 - Period ?chk) = None"
    by (simp add: h31 cfg GetAncestor_negative)
  have p63: "GetAncestor b63 (nHeight b63 - Period ?chk) = Some b31"
    using assms(5) by (simp add: h63 cfg)
  have p95: "GetAncestor b95 (nHeight b95 - Period ?chk) = Some b63"
    using assms(4) by (simp add: assms(3) cfg)
  have s0: "state_at ?chk (GetAncestor b31 (nHeight b31 - Period ?chk)) = Inr DEFINED"
    by (simp add: p31)
  have s31: "state_at ?chk (Some b31) = Inr STARTED"
    unfolding state_at_step [OF pos, of b31] s0 by (simp add: next_state_def cfg h31)
  have s63: "state_at ?chk (Some b63) = Inr LOCKED_IN"
    unfolding state_at_step [OF pos, of b63] p63 s31
    using next_state_started [OF b63 pos] assms(6) by (simp add: cfg)
  have s95: "state_at ?chk (Some b95) = Inr ACTIVE"
    unfolding state_at_step [OF pos, of b95] p95 s63 by (simp add: next_state_def cfg assms(3))
  note r = assms(7)
  have "returned (GetStateFor k ?chk (Some b31) c) = Some STARTED"
    using state_for_boundary [OF pos r nf b31] s31 by auto
  moreover have "returned (GetStateFor k ?chk (Some b63) c) = Some LOCKED_IN"
    using state_for_boundary [OF pos r nf b63] s63 by auto
  moreover have "returned (GetStateFor k ?chk (Some b95) c) = Some ACTIVE"
    using state_for_boundary [OF pos r nf b95] s95 by auto
  moreover have "returned (GetStateSinceHeightFor k ?chk (Some b31) c) = Some 32"
    using since_at_first [OF pos r nf b31 s31 _ s0] by (simp add: h31)
  moreover have "returned (GetStateSinceHeightFor k ?chk (Some b63) c) = Some 64"
    using since_at_first [OF pos r nf b63 s63 _ s31 [folded p63]] by (simp add: h63)
  moreover have "returned (GetStateSinceHeightFor k ?chk (Some b95) c) = Some 96"
    using since_at_first [OF pos r nf b95 s95 _ s63 [folded p95]] by (simp add: assms(3))
  ultimately show ?thesis by blast
qed

theorem scenario_S1_witness:
  "ALWAYS_ACTIVE sentinels0 \<noteq> 0 \<and> wf_chain S1_block95 \<and> nHeight S1_block95 = 95
   \<and> GetAncestor S1_block95 63 = Some S1_block63
   \<and> GetAncestor S1_block63 31 = Some S1_block31
   \<and> length (filter (Condition checker_S1) (take 32 (chain S1_block63))) = 28
   \<and> cache_reachable sentinels0 checker_S1 Map.empty
   \<and> returned (GetStateFor sentinels0 checker_S1 (Some S1_block31) Map.empty) = Some STARTED
   \<and> returned (GetStateSinceHeightFor sentinels0 checker_S1 (Some S1_block31) Map.empty) = Some 32
   \<and> returned (GetStateFor sentinels0 checker_S1 (Some S1_block63) Map.empty) = Some LOCKED_IN
   \<and> returned (GetStateSinceHeightFor sentinels0 checker_S1 (Some S1_block63) Map.empty) = Some 64
   \<and> returned (GetStateFor sentinels0 checker_S1 (Some S1_block95) Map.empty) = Some ACTIVE
   \<and> returned (GetStateSinceHeightFor sentinels0 checker_S1 (Some S1_block95) Map.empty) = Some 96"
proof -
  have a: "ALWAYS_ACTIVE sentinels0 \<noteq> 0" by (simp add: sentinels0_def)
  have w: "wf_chain S1_block95" by (simp add: S1_block95_def mined_block_wf)
  have h: "nHeight S1_block95 = 95" by code_simp
  have g1: "GetAncestor S1_block95 63 = Some S1_block63" by code_simp
  have g2: "GetAncestor S1_block63 31 = Some S1_block31" by code_simp
  have n: "length (filter (Condition checker_S1) (take 32 (chain S1_block63))) = 28" by code_simp
  have r: "cache_reachable sentinels0 checker_S1 Map.empty" by (rule cache_reachable.empty)
  note t = scenario_S1 [OF a w h g1 g2 n r]
  show ?thesis
    by (intro conjI a w h g1 g2 n r t [THEN conjunct1] t [THEN conjunct2, THEN conjunct1]
        t [THEN conjunct2, THEN conjunct2, THEN conjunct1]
        t [THEN conjunct2, THEN conjunct2, THEN conjunct2, THEN conjunct1]
        t [THEN conjunct2, THEN conjunct2, THEN conjunct2, THEN conjunct2, THEN conjunct1]
        t [THEN conjunct2, THEN conjunct2, THEN conjunct2, THEN conjunct2, THEN conjunct2])
qed

text \<open>
  C2 as stated fails on the chain of the scenario: the since-heights are 32, 64 and 96.
\<close>

theorem scenario_S1_since_counterexample:
  "returned (GetStateSinceHeightFor sentinels0 checker_S1 (Some S1_block31) Map.empty) = Some 32
   \<and> returned (GetStateSinceHeightFor sentinels0 checker_S1 (Some S1_block63) Map.empty) = Some 64
   \<and> returned (GetStateSinceHeightFor sentinels0 checker_S1 (Some S1_block95) Map.empty) = Some 96"
proof (intro conjI)
  show "returned (GetStateSinceHeightFor sentinels0 checker_S1 (Some S1_block31) Map.empty)
          = Some 32" by code_simp
  show "returned (GetStateSinceHeightFor sentinels0 checker_S1 (Some S1_block63) Map.empty)
          = Some 64" by code_simp
  show "returned (GetStateSinceHeightFor sentinels0 checker_S1 (Some S1_block95) Map.empty)
          = Some 96" by code_simp
qed

text \<open>
  C3. Period stability: on a chain with heights from 0 and a positive period, for every
  block \<open>B\<close> and any two caches the deployment can hold, \<open>GetStateFor\<close> returns for
  \<open>B\<close> what it returns for the ancestor of \<open>B\<close> at height
  \<open>B.height - ((B.height + 1) mod period)\<close>, and it does return.
\<close>

theorem period_stability:
  assumes "0 < Period chk" and "wf_chain B"
    and "cache_reachable k chk c1" and "cache_reachable k chk c2"
  shows "returned (GetStateFor k chk (Some B) c1)
           = returned (GetStateFor k chk
               (GetAncestor B (nHeight B - (nHeight B + 1) mod Period chk)) c2)
         \<and> returned (GetStateFor k chk (Some B) c1) \<noteq> None"
proof (cases "fast_path k chk")
  case True
  then show ?thesis by (simp add: state_for_fast)
next
  case False
  from assms(2) have wf: "wf_ptr (Some B)" by (simp add: wf_ptr_def)
  let ?P = "boundary_of chk (Some B)"
  from state_for_reachable [OF assms(1,3) False wf] obtain s where
    s: "returned (GetStateFor k chk (Some B) c1) = Some s" "state_at chk ?P = Inr s" by blast
  from state_for_reachable [OF assms(1,4) False boundary_of_wf [OF wf assms(1)]]
    boundary_of_idem [OF wf assms(1)]
  obtain s' where
    s': "returned (GetStateFor k chk ?P c2) = Some s'" "state_at chk ?P = Inr s'" by auto
  from s s' show ?thesis by (simp add: boundary_of_def)
qed

theorem period_stability_witness:
  "0 < Period checker_p2 \<and> wf_chain (signalling_block 4)
   \<and> cache_reachable sentinels0 checker_p2 Map.empty
   \<and> returned (GetStateFor sentinels0 checker_p2 (Some (signalling_block 4)) Map.empty)
       = returned (GetStateFor sentinels0 checker_p2
           (GetAncestor (signalling_block 4)
              (nHeight (signalling_block 4)
                 - (nHeight (signalling_block 4) + 1) mod Period checker_p2)) Map.empty)
   \<and> returned (GetStateFor sentinels0 checker_p2 (Some (signalling_block 4)) Map.empty)
       \<noteq> None"
proof -
  have p: "0 < Period checker_p2" by (simp add: checker_p2_def TestConditionChecker_def)
  have w: "wf_chain (signalling_block 4)" by (simp add: signalling_block_def mined_block_wf)
  have r: "cache_reachable sentinels0 checker_p2 Map.empty" by (rule cache_reachable.empty)
  from period_stability [OF p w r r] p w r show ?thesis by blast
qed

text \<open>
  C4, as amended. \<open>GetStateSinceHeightFor\<close> returns a multiple of the period (0 on the
  \<open>ALWAYS_ACTIVE\<close> and \<open>DEFINED\<close> shortcuts) that lies between 0 and \<open>P.height + 1\<close>,
  where \<open>P\<close> is the period-boundary previous-block of the pointer (\<open>P.height + 1\<close> is 0
  for \<open>nullptr\<close>, and is at most the height after the pointer itself), and it equals
  \<open>P.height + 1\<close> exactly when the period is the first in its state: there is no period
  before it, or the period before it is in another state.
\<close>

theorem since_height_postconditions:
  assumes "0 < Period chk" and "wf_ptr prev"
    and "cache_reachable k chk c" and "cache_reachable k chk c1" and "cache_reachable k chk c2"
  shows "\<exists>since. returned (GetStateSinceHeightFor k chk prev c) = Some since
      \<and> since mod Period chk = 0
      \<and> 0 \<le> since
      \<and> since \<le> prev_next_height (boundary_of chk prev)
      \<and> prev_next_height (boundary_of chk prev) \<le> prev_next_height prev
      \<and> (since = prev_next_height (boundary_of chk prev) \<longleftrightarrow>
           boundary_of chk prev = None
           \<or> returned (GetStateFor k chk (period_before chk (boundary_of chk prev)) c1)
               \<noteq> returned (GetStateFor k chk (boundary_of chk prev) c2))
      \<and> (StartHeight chk = ALWAYS_ACTIVE k \<longrightarrow> since = 0)
      \<and> (returned (GetStateFor k chk prev c1) = Some DEFINED \<longrightarrow> since = 0)"
proof -
  let ?P = "boundary_of chk prev"
  have bP: "is_boundary chk ?P" using assms(2,1) by (rule boundary_align)
  have le: "prev_next_height ?P \<le> prev_next_height prev"
    using assms(2,1) by (rule boundary_of_next_height)
  have zero_iff: "0 = prev_next_height ?P \<longleftrightarrow> ?P = None"
    and nonneg: "0 \<le> prev_next_height ?P"
    using bP by (auto simp: is_boundary_def prev_next_height_def split: option.splits
        dest: wf_chain_nonneg)
  show ?thesis
  proof (cases "fast_path k chk")
    case True
    have "returned (GetStateFor k chk (period_before chk ?P) c1)
            = returned (GetStateFor k chk ?P c2)"
      using True by (simp add: state_for_fast)
    then show ?thesis using since_fast [OF True, of prev c] le zero_iff nonneg by auto
  next
    case False
    from state_for_reachable [OF assms(1,4) False assms(2)] obtain s where
      s: "returned (GetStateFor k chk prev c1) = Some s" "state_at chk ?P = Inr s" by blast
    from state_for_boundary [OF assms(1,5) False bP] s(2)
    have sP: "returned (GetStateFor k chk ?P c2) = Some s" by auto
    from state_for_boundary [OF assms(1,4) False period_before_boundary [OF bP]] obtain s0 where
      s0: "returned (GetStateFor k chk (period_before chk ?P) c1) = Some s0"
          "state_at chk (period_before chk ?P) = Inr s0" by blast
    from False have na: "StartHeight chk \<noteq> ALWAYS_ACTIVE k" by (simp add: fast_path_def)
    note since = since_for_reachable [OF assms(1,3) False assms(2) s(2)]
    show ?thesis
    proof (cases "s = DEFINED")
      case True
      have par: "?P \<noteq> None \<Longrightarrow> s0 = DEFINED"
      proof -
        assume "?P \<noteq> None"
        then obtain b where b: "?P = Some b" by auto
        from state_at_defined_parent [OF assms(1), of b] s(2) True b s0(2)
        show "s0 = DEFINED" by (simp add: period_before_def)
      qed
      show ?thesis using par since True s(1) sP s0(1) le na zero_iff nonneg by auto
    next
      case False
      with s(2) obtain b where b: "?P = Some b" by (cases ?P) auto
      with bP have bb: "is_boundary chk (Some b)" by simp
      let ?f = "since_block chk s b"
      from since False b have r: "returned (GetStateSinceHeightFor k chk prev c) = Some (nHeight ?f + 1)"
        by simp
      from since_block_boundary [OF bb, of s]
      have m: "(nHeight ?f + 1) mod Period chk = 0" and nn: "0 \<le> nHeight ?f + 1"
        using wf_chain_nonneg [of ?f] by (simp_all add: is_boundary_def)
      from since_block_height [OF assms(1), of s b]
      have hl: "nHeight ?f \<le> nHeight b"
        and iff: "nHeight ?f = nHeight b \<longleftrightarrow>
           (case GetAncestor b (nHeight b - Period chk) of None \<Rightarrow> True
            | Some a \<Rightarrow> state_at chk (Some a) \<noteq> Inr s)" by simp_all
      have "(case GetAncestor b (nHeight b - Period chk) of None \<Rightarrow> True
            | Some a \<Rightarrow> state_at chk (Some a) \<noteq> Inr s) \<longleftrightarrow> s0 \<noteq> s"
        using s0(2) b False by (auto simp: period_before_def split: option.splits)
      with iff have iff': "nHeight ?f + 1 = prev_next_height ?P \<longleftrightarrow> s0 \<noteq> s"
        using b by (simp add: prev_next_height_def)
      from hl b have "nHeight ?f + 1 \<le> prev_next_height ?P" by (simp add: prev_next_height_def)
      with r m nn iff' le s(1) sP s0(1) b False na show ?thesis by auto
    qed
  qed
qed

theorem since_height_postconditions_witness:
  "0 < Period checker_p2 \<and> wf_ptr (Some (signalling_block 2))
   \<and> cache_reachable sentinels0 checker_p2 Map.empty
   \<and> returned (GetStateSinceHeightFor sentinels0 checker_p2 (Some (signalling_block 2))
         Map.empty) = Some 2
   \<and> 2 mod Period checker_p2 = 0
   \<and> 2 \<le> prev_next_height (boundary_of checker_p2 (Some (signalling_block 2)))
   \<and> prev_next_height (boundary_of checker_p2 (Some (signalling_block 2)))
       \<le> prev_next_height (Some (signalling_block 2))
   \<and> returned (GetStateFor sentinels0 checker_p2
         (period_before checker_p2 (boundary_of checker_p2 (Some (signalling_block 2))))
         Map.empty)
       \<noteq> returned (GetStateFor sentinels0 checker_p2
             (boundary_of checker_p2 (Some (signalling_block 2))) Map.empty)
   \<and> 2 = prev_next_height (boundary_of checker_p2 (Some (signalling_block 2)))"
proof -
  have p: "0 < Period checker_p2" by (simp add: checker_p2_def TestConditionChecker_def)
  have w: "wf_ptr (Some (signalling_block 2))"
    by (simp add: wf_ptr_def signalling_block_def mined_block_wf)
  have r: "cache_reachable sentinels0 checker_p2 Map.empty" by (rule cache_reachable.empty)
  have v: "returned (GetStateSinceHeightFor sentinels0 checker_p2 (Some (signalling_block 2))
                   Map.empty) = Some 2" by code_simp
  have d: "returned (GetStateFor sentinels0 checker_p2
             (period_before checker_p2 (boundary_of checker_p2 (Some (signalling_block 2))))
             Map.empty)
            \<noteq> returned (GetStateFor sentinels0 checker_p2
                 (boundary_of checker_p2 (Some (signalling_block 2))) Map.empty)"
  proof -
    have "returned (GetStateFor sentinels0 checker_p2
             (period_before checker_p2 (boundary_of checker_p2 (Some (signalling_block 2))))
             Map.empty) = Some DEFINED" by code_simp
    moreover have "returned (GetStateFor sentinels0 checker_p2
             (boundary_of checker_p2 (Some (signalling_block 2))) Map.empty) = Some STARTED"
      by code_simp
    ultimately show ?thesis by simp
  qed
  from since_height_postconditions [OF p w r r r] obtain since where
    s: "returned (GetStateSinceHeightFor sentinels0 checker_p2 (Some (signalling_block 2))
          Map.empty) = Some since"
      "since mod Period checker_p2 = 0"
      "since \<le> prev_next_height (boundary_of checker_p2 (Some (signalling_block 2)))"
      "prev_next_height (boundary_of checker_p2 (Some (signalling_block 2)))
            \<le> prev_next_height (Some (signalling_block 2))"
      "since = prev_next_height (boundary_of checker_p2 (Some (signalling_block 2))) \<longleftrightarrow>
         boundary_of checker_p2 (Some (signalling_block 2)) = None
         \<or> returned (GetStateFor sentinels0 checker_p2
             (period_before checker_p2 (boundary_of checker_p2 (Some (signalling_block 2))))
             Map.empty)
            \<noteq> returned (GetStateFor sentinels0 checker_p2
                 (boundary_of checker_p2 (Some (signalling_block 2))) Map.empty)"
    by (elim exE conjE) (rule that, assumption+)
  from s(1) v have e: "since = 2" by simp
  from s(5) d have f: "since = prev_next_height (boundary_of checker_p2 (Some (signalling_block 2)))"
    by (rule iffD2 [OF _ disjI2])
  show ?thesis
    by (intro conjI p w r v d s(2) [unfolded e] s(3) [unfolded e] s(4) f [unfolded e])
qed

text \<open>
  C4 with the height of the pointer, or of the block after it, in the place of the
  boundary's: with period 2 the pointer of height 2 is in mid-period, its period is the
  first in state \<open>STARTED\<close> (the period before is \<open>DEFINED\<close>), and the since-height is
  2, neither 3 nor 4.
\<close>

theorem since_height_mid_period_counterexample:
  "returned (GetStateSinceHeightFor sentinels0 checker_p2 (Some (signalling_block 2)) Map.empty)
     = Some 2
   \<and> nHeight (signalling_block 2) = 2
   \<and> returned (GetStateFor sentinels0 checker_p2 (Some (signalling_block 2)) Map.empty)
       = Some STARTED
   \<and> returned (GetStateFor sentinels0 checker_p2 (Some (signalling_block 0)) Map.empty)
       = Some DEFINED"
proof (intro conjI)
  show "returned (GetStateSinceHeightFor sentinels0 checker_p2 (Some (signalling_block 2))
          Map.empty) = Some 2" by code_simp
  show "nHeight (signalling_block 2) = 2" by code_simp
  show "returned (GetStateFor sentinels0 checker_p2 (Some (signalling_block 2)) Map.empty)
          = Some STARTED" by code_simp
  show "returned (GetStateFor sentinels0 checker_p2 (Some (signalling_block 0)) Map.empty)
          = Some DEFINED" by code_simp
qed

text \<open>
  C5. Minimum activation height: when \<open>start_height\<close> is not \<open>ALWAYS_ACTIVE\<close>, the state
  of a block \<open>B\<close> of height below \<open>min_activation_height\<close> (the state returned for its
  predecessor pointer) is not \<open>ACTIVE\<close>; and at a boundary block \<open>P'\<close> whose period
  predecessor is \<open>LOCKED_IN\<close> the state is \<open>ACTIVE\<close> exactly when
  \<open>P'.height + 1 \<ge> min_activation_height\<close>, and \<open>LOCKED_IN\<close> otherwise.
\<close>

theorem min_activation:
  assumes "0 < Period chk" and "StartHeight chk \<noteq> ALWAYS_ACTIVE k"
    and "wf_chain B" and "wf_chain P'"
    and "cache_reachable k chk c" and "cache_reachable k chk c0"
  shows "(nHeight B < MinActivationHeight chk \<longrightarrow>
            (\<exists>s. returned (GetStateFor k chk (pprev B) c) = Some s \<and> s \<noteq> ACTIVE))
         \<and> ((nHeight P' + 1) mod Period chk = 0
              \<and> returned (GetStateFor k chk (GetAncestor P' (nHeight P' - Period chk)) c0)
                  = Some LOCKED_IN \<longrightarrow>
            returned (GetStateFor k chk (Some P') c)
              = Some (if MinActivationHeight chk \<le> nHeight P' + 1 then ACTIVE else LOCKED_IN))"
proof (intro conjI impI)
  assume low: "nHeight B < MinActivationHeight chk"
  from wf_chain_pprev [OF assms(3)] have wp: "wf_ptr (pprev B)"
    and h: "prev_next_height (pprev B) = nHeight B" by simp_all
  show "\<exists>s. returned (GetStateFor k chk (pprev B) c) = Some s \<and> s \<noteq> ACTIVE"
  proof (cases "fast_path k chk")
    case True
    with assms(2) show ?thesis by (simp add: state_for_fast fast_path_def)
  next
    case False
    from state_for_reachable [OF assms(1,5) False wp] obtain s where
      s: "returned (GetStateFor k chk (pprev B) c) = Some s"
         "state_at chk (boundary_of chk (pprev B)) = Inr s" by blast
    have "s \<noteq> ACTIVE"
    proof
      assume "s = ACTIVE"
      with state_at_active [OF assms(1), of "boundary_of chk (pprev B)"] s(2) obtain b where
        b: "boundary_of chk (pprev B) = Some b" "MinActivationHeight chk \<le> nHeight b + 1" by auto
      from b(1) obtain q where q: "pprev B = Some q" by (cases "pprev B") (auto simp: boundary_of_def)
      with wp have "0 \<le> nHeight q" by (simp add: wf_ptr_def wf_chain_nonneg)
      from boundary_of_height [OF _ this assms(1)] b(1) q have "nHeight b \<le> nHeight q" by simp
      with h q b(2) low show False by (simp add: prev_next_height_def)
    qed
    with s(1) show ?thesis by simp
  qed
next
  assume a: "(nHeight P' + 1) mod Period chk = 0
     \<and> returned (GetStateFor k chk (GetAncestor P' (nHeight P' - Period chk)) c0) = Some LOCKED_IN"
  then have nf: "\<not> fast_path k chk" by (auto dest: fast_path_states)
  from assms(4) a have b: "is_boundary chk (Some P')" by (simp add: is_boundary_def)
  from state_for_boundary [OF assms(1,6) nf boundary_parent [OF b]] a
  have "state_at chk (GetAncestor P' (nHeight P' - Period chk)) = Inr LOCKED_IN" by auto
  with state_at_step [OF assms(1), of P']
  have "state_at chk (Some P')
          = Inr (if MinActivationHeight chk \<le> nHeight P' + 1 then ACTIVE else LOCKED_IN)"
    by (simp add: next_state_def)
  with state_for_boundary [OF assms(1,5) nf b]
  show "returned (GetStateFor k chk (Some P') c)
          = Some (if MinActivationHeight chk \<le> nHeight P' + 1 then ACTIVE else LOCKED_IN)"
    by auto
qed

theorem min_activation_witness:
  "0 < Period checker_p2 \<and> StartHeight checker_p2 \<noteq> ALWAYS_ACTIVE sentinels0
   \<and> wf_chain (signalling_block 4) \<and> wf_chain (signalling_block 5)
   \<and> cache_reachable sentinels0 checker_p2 Map.empty
   \<and> nHeight (signalling_block 4) < MinActivationHeight checker_p2
   \<and> (\<exists>s. returned (GetStateFor sentinels0 checker_p2 (pprev (signalling_block 4)) Map.empty)
              = Some s \<and> s \<noteq> ACTIVE)
   \<and> (nHeight (signalling_block 5) + 1) mod Period checker_p2 = 0
   \<and> returned (GetStateFor sentinels0 checker_p2
         (GetAncestor (signalling_block 5) (nHeight (signalling_block 5) - Period checker_p2))
         Map.empty) = Some LOCKED_IN
   \<and> returned (GetStateFor sentinels0 checker_p2 (Some (signalling_block 5)) Map.empty)
       = Some ACTIVE"
proof -
  have p: "0 < Period checker_p2" by (simp add: checker_p2_def TestConditionChecker_def)
  have n: "StartHeight checker_p2 \<noteq> ALWAYS_ACTIVE sentinels0"
    by (simp add: checker_p2_def TestConditionChecker_def sentinels0_def)
  have w4: "wf_chain (signalling_block 4)" by (simp add: signalling_block_def mined_block_wf)
  have w5: "wf_chain (signalling_block 5)" by (simp add: signalling_block_def mined_block_wf)
  have r: "cache_reachable sentinels0 checker_p2 Map.empty" by (rule cache_reachable.empty)
  have low: "nHeight (signalling_block 4) < MinActivationHeight checker_p2" by code_simp
  have a: "(nHeight (signalling_block 5) + 1) mod Period checker_p2 = 0" by code_simp
  have s: "returned (GetStateFor sentinels0 checker_p2
         (GetAncestor (signalling_block 5) (nHeight (signalling_block 5) - Period checker_p2))
         Map.empty) = Some LOCKED_IN" by code_simp
  have m: "MinActivationHeight checker_p2 \<le> nHeight (signalling_block 5) + 1" by code_simp
  from min_activation [OF p n w4 w5 r r] low a s m
  have "(\<exists>s. returned (GetStateFor sentinels0 checker_p2 (pprev (signalling_block 4)) Map.empty)
              = Some s \<and> s \<noteq> ACTIVE)
    \<and> returned (GetStateFor sentinels0 checker_p2 (Some (signalling_block 5)) Map.empty)
       = Some ACTIVE" by simp
  with p n w4 w5 r low a s show ?thesis by blast
qed

text \<open>
  C6. Sentinel fast paths: with \<open>start_height = ALWAYS_ACTIVE\<close> (a value other than
  \<open>NEVER_ACTIVE\<close>) \<open>GetStateFor\<close> returns \<open>ACTIVE\<close> and \<open>GetStateSinceHeightFor\<close>
  returns 0 for every pointer, \<open>nullptr\<close> too, whatever the chain and the cache hold,
  and the cache is left as it was; with both heights \<open>NEVER_ACTIVE\<close> they return
  \<open>DEFINED\<close> and 0 in the same way.
\<close>

theorem sentinel_fast_paths:
  "(StartHeight chk = ALWAYS_ACTIVE k \<and> ALWAYS_ACTIVE k \<noteq> NEVER_ACTIVE k \<longrightarrow>
      GetStateFor k chk p cache = Some (Inr (ACTIVE, cache))
      \<and> GetStateSinceHeightFor k chk p cache = Some (Inr (0, cache)))
   \<and> (StartHeight chk = NEVER_ACTIVE k \<and> TimeoutHeight chk = NEVER_ACTIVE k \<longrightarrow>
      GetStateFor k chk p cache = Some (Inr (DEFINED, cache))
      \<and> GetStateSinceHeightFor k chk p cache = Some (Inr (0, cache)))"
  by (simp add: GetStateFor_def GetStateSinceHeightFor_def)

theorem sentinel_fast_paths_witness:
  "StartHeight checker_always = ALWAYS_ACTIVE sentinels0
   \<and> ALWAYS_ACTIVE sentinels0 \<noteq> NEVER_ACTIVE sentinels0
   \<and> GetStateFor sentinels0 checker_always (Some (signalling_block 5)) Map.empty = Some (Inr (ACTIVE, Map.empty))
   \<and> GetStateSinceHeightFor sentinels0 checker_always (Some (signalling_block 5)) Map.empty
       = Some (Inr (0, Map.empty))
   \<and> StartHeight checker_never = NEVER_ACTIVE sentinels0
   \<and> TimeoutHeight checker_never = NEVER_ACTIVE sentinels0
   \<and> GetStateFor sentinels0 checker_never (Some (signalling_block 5)) Map.empty = Some (Inr (DEFINED, Map.empty))
   \<and> GetStateSinceHeightFor sentinels0 checker_never (Some (signalling_block 5)) Map.empty
       = Some (Inr (0, Map.empty))"
proof -
  have a: "StartHeight checker_always = ALWAYS_ACTIVE sentinels0"
    "ALWAYS_ACTIVE sentinels0 \<noteq> NEVER_ACTIVE sentinels0"
    by (simp_all add: checker_always_def TestConditionChecker_def sentinels0_def)
  have n: "StartHeight checker_never = NEVER_ACTIVE sentinels0"
    "TimeoutHeight checker_never = NEVER_ACTIVE sentinels0"
    by (simp_all add: checker_never_def TestConditionChecker_def sentinels0_def)
  from sentinel_fast_paths [of checker_always sentinels0 "Some (signalling_block 5)" Map.empty]
    sentinel_fast_paths [of checker_never sentinels0 "Some (signalling_block 5)" Map.empty] a n
  show ?thesis by blast
qed

text \<open>
  C7, as amended. For a configuration with \<open>0 \<le> threshold \<le> period\<close> (the period an
  \<open>int\<close>) and a block \<open>B\<close> whose ancestor \<open>boundary\<close> at height
  \<open>B.height - ((B.height + 1) mod period)\<close> exists, \<open>GetStateStatisticsFor\<close> returns
  \<open>elapsed = B.height - boundary.height\<close>, \<open>count\<close> the number of blocks after
  \<open>boundary\<close> up to \<open>B\<close> that satisfy the condition, and
  \<open>possible = (period - threshold \<ge> elapsed - count)\<close>.
\<close>

theorem statistics_with_boundary:
  assumes "0 < Period chk" and "Period chk < 2147483648"
    and "0 \<le> Threshold chk" and "Threshold chk \<le> Period chk"
    and "wf_chain B"
    and "GetAncestor B (nHeight B - (nHeight B + 1) mod Period chk) = Some boundary"
  shows "GetStateStatisticsFor chk (Some B) =
     Inr \<lparr> period = Period chk, threshold = Threshold chk,
           elapsed = nHeight B - nHeight boundary,
           count = int (length (filter (\<lambda>x. nHeight boundary < nHeight x \<and> Condition chk x)
                                  (chain B))),
           possible =
             (nHeight B - nHeight boundary
                - int (length (filter (\<lambda>x. nHeight boundary < nHeight x \<and> Condition chk x)
                                 (chain B)))
              \<le> Period chk - Threshold chk) \<rparr>"
proof -
  let ?cnt = "int (length (filter (\<lambda>x. nHeight boundary < nHeight x \<and> Condition chk x)
                             (chain B)))"
  from period_boundary_wf [OF assms(5,1)] assms(6)
  have pb: "period_boundary (Period chk) B = Inr (Some boundary)" by simp
  from GetAncestor_height [OF assms(6)]
  have h: "nHeight boundary = nHeight B - (nHeight B + 1) mod Period chk" .
  have m: "0 \<le> (nHeight B + 1) mod Period chk" "(nHeight B + 1) mod Period chk < Period chk"
    using assms(1) by simp_all
  with h have le: "nHeight boundary \<le> nHeight B"
    and el: "nHeight B - nHeight boundary < Period chk" by simp_all
  from GetAncestor_wf [OF assms(5,6)] have nn: "0 \<le> nHeight boundary" by (rule wf_chain_nonneg)
  from count_above_le [OF assms(5) le nn, of "Condition chk"]
  have cl: "?cnt \<le> nHeight B - nHeight boundary" .
  have c0: "0 \<le> ?cnt" by simp
  have d1: "int32_sub (Period chk) (Threshold chk) = Period chk - Threshold chk"
    using assms(2,3,4) by (intro int32_sub_in_range) simp_all
  have d2: "int32_sub (nHeight B - nHeight boundary) ?cnt = nHeight B - nHeight boundary - ?cnt"
    using cl c0 el assms(2) by (intro int32_sub_in_range) linarith+
  from count_to_boundary_result [OF assms(5) le nn, of chk 0] pb d1 d2
  show ?thesis by (simp add: GetStateStatisticsFor_def)
qed

theorem statistics_with_boundary_witness:
  "0 < Period checker_p2 \<and> Period checker_p2 < 2147483648
   \<and> 0 \<le> Threshold checker_p2 \<and> Threshold checker_p2 \<le> Period checker_p2
   \<and> wf_chain (signalling_block 4)
   \<and> GetAncestor (signalling_block 4)
        (nHeight (signalling_block 4) - (nHeight (signalling_block 4) + 1) mod Period checker_p2)
       = Some (signalling_block 3)
   \<and> GetStateStatisticsFor checker_p2 (Some (signalling_block 4)) =
       Inr \<lparr> period = 2, threshold = 1, elapsed = 1, count = 1, possible = True \<rparr>"
proof -
  have p: "0 < Period checker_p2" "Period checker_p2 < 2147483648"
    "0 \<le> Threshold checker_p2" "Threshold checker_p2 \<le> Period checker_p2"
    by (simp_all add: checker_p2_def TestConditionChecker_def)
  have w: "wf_chain (signalling_block 4)" by (simp add: signalling_block_def mined_block_wf)
  have a: "GetAncestor (signalling_block 4)
        (nHeight (signalling_block 4) - (nHeight (signalling_block 4) + 1) mod Period checker_p2)
       = Some (signalling_block 3)" by code_simp
  have v: "Period checker_p2 = 2" "Threshold checker_p2 = 1"
    "nHeight (signalling_block 4) - nHeight (signalling_block 3) = 1"
    "int (length (filter (\<lambda>x. nHeight (signalling_block 3) < nHeight x \<and> Condition checker_p2 x)
                    (chain (signalling_block 4)))) = 1"
    by code_simp+
  from statistics_with_boundary [OF p w a] v
  have g: "GetStateStatisticsFor checker_p2 (Some (signalling_block 4)) =
       Inr \<lparr> period = 2, threshold = 1, elapsed = 1, count = 1, possible = True \<rparr>" by simp
  show ?thesis by (intro conjI p w a g)
qed

text \<open>
  C7 as stated, for every block, fails in the first period: with period 2 the boundary
  of the genesis block is \<open>nullptr\<close>, and line 126 dereferences it.
\<close>

theorem statistics_first_period_counterexample:
  "GetStateStatisticsFor checker_p2 (Some (signalling_block 0)) = Inl NullDereference"
  by code_simp

text \<open>
  C8. With lock-in on timeout and a period of at least 1, \<open>GetStateFor\<close> returns a state
  other than \<open>FAILED\<close> for every pointer into a chain and every cache the deployment can
  hold; the step from \<open>STARTED\<close> never gives \<open>FAILED\<close>, and the step from
  \<open>MUST_SIGNAL\<close> always gives \<open>LOCKED_IN\<close>.
\<close>

theorem lockin_on_timeout_never_fails:
  assumes "LockinOnTimeout chk" and "1 \<le> Period chk" and "wf_ptr p"
    and "cache_reachable k chk c"
  shows "(\<exists>s. returned (GetStateFor k chk p c) = Some s \<and> s \<noteq> FAILED)
         \<and> next_state chk STARTED b \<noteq> Inr FAILED
         \<and> next_state chk MUST_SIGNAL b = Inr LOCKED_IN"
proof -
  from assms(2) have pos: "0 < Period chk" by simp
  have "\<exists>s. returned (GetStateFor k chk p c) = Some s \<and> s \<noteq> FAILED"
  proof (cases "fast_path k chk")
    case True
    then show ?thesis by (simp add: state_for_fast)
  next
    case False
    from state_for_reachable [OF pos assms(4) False assms(3)]
      state_at_not_failed [OF assms(1) pos, of "boundary_of chk p"]
    show ?thesis by auto
  qed
  moreover have "next_state chk STARTED b \<noteq> Inr FAILED"
    using next_state_failed [OF assms(1) pos, of STARTED b] by auto
  moreover have "next_state chk MUST_SIGNAL b = Inr LOCKED_IN"
    by (simp add: next_state_def)
  ultimately show ?thesis by blast
qed

theorem lockin_on_timeout_never_fails_witness:
  "LockinOnTimeout checker_lot \<and> 1 \<le> Period checker_lot \<and> wf_ptr (Some (quiet_block 7))
   \<and> cache_reachable sentinels0 checker_lot Map.empty
   \<and> (\<exists>s. returned (GetStateFor sentinels0 checker_lot (Some (quiet_block 7)) Map.empty) = Some s
          \<and> s \<noteq> FAILED)
   \<and> next_state checker_lot STARTED (quiet_block 7) \<noteq> Inr FAILED
   \<and> next_state checker_lot MUST_SIGNAL (quiet_block 7) = Inr LOCKED_IN"
proof -
  have l: "LockinOnTimeout checker_lot" by (simp add: checker_lot_def TestConditionChecker_def)
  have p: "1 \<le> Period checker_lot" by (simp add: checker_lot_def TestConditionChecker_def)
  have w: "wf_ptr (Some (quiet_block 7))" by (simp add: wf_ptr_def quiet_block_def mined_block_wf)
  have r: "cache_reachable sentinels0 checker_lot Map.empty" by (rule cache_reachable.empty)
  from lockin_on_timeout_never_fails [OF l p w r, of "quiet_block 7"] l p w r
  show ?thesis by blast
qed

text \<open>
  C9. When \<open>start_height\<close> is not \<open>ALWAYS_ACTIVE\<close>, every block \<open>B\<close> of height below
  the period aligns to \<open>nullptr\<close> and has state \<open>DEFINED\<close>, also with start height 0;
  and a block of height equal to the period has state \<open>STARTED\<close> when the start height
  is at most the period and the deployment is not never active, so that the period is
  the earliest height of a \<open>STARTED\<close> block.
\<close>

theorem first_period_defined:
  assumes "0 < Period chk" and "StartHeight chk \<noteq> ALWAYS_ACTIVE k" and "wf_chain B"
    and "cache_reachable k chk c"
  shows "(nHeight B < Period chk \<longrightarrow>
            boundary_of chk (pprev B) = None
            \<and> returned (GetStateFor k chk (pprev B) c) = Some DEFINED)
         \<and> (nHeight B = Period chk \<and> StartHeight chk \<le> Period chk
              \<and> \<not> (StartHeight chk = NEVER_ACTIVE k \<and> TimeoutHeight chk = NEVER_ACTIVE k) \<longrightarrow>
            returned (GetStateFor k chk (pprev B) c) = Some STARTED)"
proof (intro conjI impI)
  assume low: "nHeight B < Period chk"
  from first_period_boundary [OF assms(3) low]
  show none: "boundary_of chk (pprev B) = None" .
  from wf_chain_pprev [OF assms(3)] have wp: "wf_ptr (pprev B)" by simp
  show "returned (GetStateFor k chk (pprev B) c) = Some DEFINED"
  proof (cases "fast_path k chk")
    case True
    with assms(2) show ?thesis by (simp add: state_for_fast fast_path_def)
  next
    case False
    from state_for_reachable [OF assms(1,4) False wp] none show ?thesis by auto
  qed
next
  assume a: "nHeight B = Period chk \<and> StartHeight chk \<le> Period chk
     \<and> \<not> (StartHeight chk = NEVER_ACTIVE k \<and> TimeoutHeight chk = NEVER_ACTIVE k)"
  with assms(2) have nf: "\<not> fast_path k chk" by (simp add: fast_path_def)
  from wf_chain_pprev [OF assms(3)] have wp: "wf_ptr (pprev B)"
    and h: "prev_next_height (pprev B) = nHeight B" by simp_all
  from h a assms(1) obtain q where q: "pprev B = Some q" "nHeight q + 1 = Period chk"
    by (cases "pprev B") (auto simp: prev_next_height_def)
  with wp have b: "is_boundary chk (Some q)" by (simp add: is_boundary_def wf_ptr_def)
  from q(2) have "GetAncestor q (nHeight q - Period chk) = None"
    by (simp add: GetAncestor_negative)
  with state_at_step [OF assms(1), of q] a q(2)
  have "state_at chk (Some q) = Inr STARTED" by (simp add: next_state_def)
  with state_for_boundary [OF assms(1,4) nf b] q(1)
  show "returned (GetStateFor k chk (pprev B) c) = Some STARTED" by auto
qed

theorem first_period_defined_witness:
  "0 < Period checker_p2 \<and> StartHeight checker_p2 \<noteq> ALWAYS_ACTIVE sentinels0
   \<and> wf_chain (signalling_block 1) \<and> wf_chain (signalling_block 2)
   \<and> cache_reachable sentinels0 checker_p2 Map.empty
   \<and> nHeight (signalling_block 1) < Period checker_p2
   \<and> boundary_of checker_p2 (pprev (signalling_block 1)) = None
   \<and> returned (GetStateFor sentinels0 checker_p2 (pprev (signalling_block 1)) Map.empty)
       = Some DEFINED
   \<and> nHeight (signalling_block 2) = Period checker_p2
   \<and> StartHeight checker_p2 \<le> Period checker_p2
   \<and> StartHeight checker_p2 \<noteq> NEVER_ACTIVE sentinels0
   \<and> returned (GetStateFor sentinels0 checker_p2 (pprev (signalling_block 2)) Map.empty)
       = Some STARTED"
proof -
  have p: "0 < Period checker_p2" by (simp add: checker_p2_def TestConditionChecker_def)
  have n: "StartHeight checker_p2 \<noteq> ALWAYS_ACTIVE sentinels0"
    by (simp add: checker_p2_def TestConditionChecker_def sentinels0_def)
  have w1: "wf_chain (signalling_block 1)" by (simp add: signalling_block_def mined_block_wf)
  have w2: "wf_chain (signalling_block 2)" by (simp add: signalling_block_def mined_block_wf)
  have r: "cache_reachable sentinels0 checker_p2 Map.empty" by (rule cache_reachable.empty)
  have low: "nHeight (signalling_block 1) < Period checker_p2" by code_simp
  have at: "nHeight (signalling_block 2) = Period checker_p2" by code_simp
  have st: "StartHeight checker_p2 \<le> Period checker_p2"
    "StartHeight checker_p2 \<noteq> NEVER_ACTIVE sentinels0"
    by (simp_all add: checker_p2_def TestConditionChecker_def sentinels0_def)
  from first_period_defined [OF p n w1 r] low
  have one: "boundary_of checker_p2 (pprev (signalling_block 1)) = None
    \<and> returned (GetStateFor sentinels0 checker_p2 (pprev (signalling_block 1)) Map.empty)
        = Some DEFINED" by blast
  from first_period_defined [OF p n w2 r] at st
  have two: "returned (GetStateFor sentinels0 checker_p2 (pprev (signalling_block 2)) Map.empty)
        = Some STARTED" by blast
  from p n w1 w2 r low at st one two show ?thesis by blast
qed

text \<open>
  C10. \<open>GetStateStatisticsFor\<close> on \<open>nullptr\<close> returns the configured period and
  threshold, \<open>elapsed = 0\<close>, \<open>count = 0\<close> and \<open>possible = false\<close>.
\<close>

theorem stats_for_none:
  "GetStateStatisticsFor chk None =
     Inr \<lparr> period = Period chk, threshold = Threshold chk, elapsed = 0, count = 0,
           possible = False \<rparr>"
  by (simp add: GetStateStatisticsFor_def)

end
